theory Spec2Isabelle
  imports Complex_Main "HOL-Library.Word"
begin

section \<open>JavaScript strings\<close>

text \<open>
  A JavaScript string is a sequence of UTF-16 code units. The typographic quotes that
  \<open>normalizeQuotes\<close> rewrites lie outside ASCII, so a code unit is a 16-bit word.
  \<open>js\<close> writes an ASCII literal as such a string.
\<close>

type_synonym jschar = "16 word"
type_synonym jsstring = "jschar list"

definition js :: "string \<Rightarrow> jsstring" where
  "js s = map of_char s"

text \<open>
  \<open>String.prototype.trim\<close> and the regular expression class \<open>\s\<close> use the same set:
  the WhiteSpace and LineTerminator code points of ECMAScript.
\<close>

definition isSpace :: "jschar \<Rightarrow> bool" where
  "isSpace c \<longleftrightarrow>
     (0x09 \<le> c \<and> c \<le> 0x0D) \<or> c = 0x20 \<or> c = 0xA0 \<or> c = 0x1680 \<or>
     (0x2000 \<le> c \<and> c \<le> 0x200A) \<or> c = 0x2028 \<or> c = 0x2029 \<or> c = 0x202F \<or>
     c = 0x205F \<or> c = 0x3000 \<or> c = 0xFEFF"

definition trimStart :: "jsstring \<Rightarrow> jsstring" where
  "trimStart s = dropWhile isSpace s"

definition trimEnd :: "jsstring \<Rightarrow> jsstring" where
  "trimEnd s = rev (dropWhile isSpace (rev s))"

definition trim :: "jsstring \<Rightarrow> jsstring" where
  "trim s = trimEnd (trimStart s)"

text \<open>\<open>[a-zA-Z0-9]\<close>; under the \<open>i\<close> flag without \<open>u\<close> no code unit beyond ASCII folds
  into an ASCII letter, so the class is unchanged.\<close>

definition isAlnum :: "jschar \<Rightarrow> bool" where
  "isAlnum c \<longleftrightarrow> (0x30 \<le> c \<and> c \<le> 0x39) \<or> (0x41 \<le> c \<and> c \<le> 0x5A) \<or> (0x61 \<le> c \<and> c \<le> 0x7A)"

definition lowerAscii :: "jschar \<Rightarrow> jschar" where
  "lowerAscii c = (if 0x41 \<le> c \<and> c \<le> 0x5A then c + 0x20 else c)"

text \<open>\<open>indexOf\<close> and \<open>lastIndexOf\<close> of one code unit; JavaScript's \<open>-1\<close> is \<open>None\<close>.\<close>

fun indexOf :: "jschar \<Rightarrow> jsstring \<Rightarrow> nat option" where
  "indexOf c [] = None"
| "indexOf c (x # xs) = (if x = c then Some 0 else map_option Suc (indexOf c xs))"

fun lastIndexOf :: "jschar \<Rightarrow> jsstring \<Rightarrow> nat option" where
  "lastIndexOf c [] = None"
| "lastIndexOf c (x # xs) =
     (case lastIndexOf c xs of
        Some i \<Rightarrow> Some (Suc i)
      | None \<Rightarrow> if x = c then Some 0 else None)"

text \<open>\<open>text.slice(from, to)\<close> for \<open>0 \<le> from \<le> to\<close>.\<close>

definition slice :: "jsstring \<Rightarrow> nat \<Rightarrow> nat \<Rightarrow> jsstring" where
  "slice s from to = take (to - from) (drop from s)"

section \<open>The helpers of the coercion\<close>

definition fence :: jsstring where
  "fence = [0x60, 0x60, 0x60]"

text \<open>\<open>.replace(/^```[a-zA-Z0-9]*\s*/i, '')\<close>: both stars are greedy and nothing follows
  them, so the match is the fence, the longest run of letters and digits, and the longest
  run of white space.\<close>

definition stripOpeningFence :: "jsstring \<Rightarrow> jsstring" where
  "stripOpeningFence t =
     (if take 3 t = fence then dropWhile isSpace (dropWhile isAlnum (drop 3 t)) else t)"

text \<open>\<open>.replace(/```$/, '')\<close>: without the \<open>m\<close> flag \<open>$\<close> is the end of the input.\<close>

definition stripClosingFence :: "jsstring \<Rightarrow> jsstring" where
  "stripClosingFence t =
     (if 3 \<le> length t \<and> drop (length t - 3) t = fence then take (length t - 3) t else t)"

definition stripCodeFences :: "jsstring \<Rightarrow> jsstring" where
  "stripCodeFences text = trim (stripClosingFence (stripOpeningFence (trim text)))"

text \<open>\<open>text.replace(/^json\s*/i, '').trim()\<close>.\<close>

definition stripJsonPrefix :: "jsstring \<Rightarrow> jsstring" where
  "stripJsonPrefix text =
     trim (if map lowerAscii (take 4 text) = js ''json''
           then dropWhile isSpace (drop 4 text) else text)"

definition extractJsonBlock :: "jsstring \<Rightarrow> jsstring option" where
  "extractJsonBlock text =
     (case indexOf 0x7B text of
        None \<Rightarrow> None
      | Some start \<Rightarrow>
          (case lastIndexOf 0x7D text of
             None \<Rightarrow> None
           | Some end \<Rightarrow> if end \<le> start then None else Some (slice text start (end + 1))))"

definition singleQuotes :: "jschar \<Rightarrow> jschar" where
  "singleQuotes c =
     (if c = 0x2018 \<or> c = 0x2019 \<or> c = 0x201A \<or> c = 0x201B \<or> c = 0x2032 \<or> c = 0x2035
      then 0x27 else c)"

definition doubleQuotes :: "jschar \<Rightarrow> jschar" where
  "doubleQuotes c =
     (if c = 0x201C \<or> c = 0x201D \<or> c = 0x201E \<or> c = 0x201F \<or> c = 0x2033 \<or> c = 0x2036
      then 0x22 else c)"

definition normalizeQuotes :: "jsstring \<Rightarrow> jsstring" where
  "normalizeQuotes text =
     (if text = [] then text else map doubleQuotes (map singleQuotes text))"

section \<open>JSON values and \<open>JSON.parse\<close>\<close>

text \<open>
  The values \<open>JSON.parse\<close> returns. A number is kept as the exact value of its decimal
  text; JavaScript holds the double nearest to it. An object is its properties in the
  order in which JavaScript lists them. JavaScript's \<open>null\<close> is \<open>JNull\<close>.
\<close>

datatype json =
    JNull
  | JBool bool
  | JNumber rat
  | JString jsstring
  | JArray "json list"
  | JObject "(jsstring \<times> json) list"

text \<open>
  Truthiness, as \<open>if (parsed)\<close> and \<open>!candidate\<close> test it. A number is falsy when its
  double is zero: round-to-nearest-even sends exactly the values of magnitude at most
  \<open>2\<^sup>-\<^sup>1\<^sup>0\<^sup>7\<^sup>5\<close> to zero.
\<close>

fun truthy :: "json \<Rightarrow> bool" where
  "truthy JNull = False"
| "truthy (JBool b) = b"
| "truthy (JNumber n) = (1 / 2 ^ 1075 < \<bar>n\<bar>)"
| "truthy (JString s) = (s \<noteq> [])"
| "truthy (JArray xs) = True"
| "truthy (JObject ms) = True"

subsection \<open>Tokens\<close>

datatype token =
    TLBrace | TRBrace | TLBracket | TRBracket | TColon | TComma
  | TString jsstring | TNumber rat | TTrue | TFalse | TNull

definition isJsonWs :: "jschar \<Rightarrow> bool" where
  "isJsonWs c \<longleftrightarrow> c = 0x09 \<or> c = 0x0A \<or> c = 0x0D \<or> c = 0x20"

definition isDigit :: "jschar \<Rightarrow> bool" where
  "isDigit c \<longleftrightarrow> 0x30 \<le> c \<and> c \<le> 0x39"

definition hexval :: "jschar \<Rightarrow> nat option" where
  "hexval c =
     (if 0x30 \<le> c \<and> c \<le> 0x39 then Some (unat c - 0x30)
      else if 0x41 \<le> c \<and> c \<le> 0x46 then Some (unat c - 0x41 + 10)
      else if 0x61 \<le> c \<and> c \<le> 0x66 then Some (unat c - 0x61 + 10)
      else None)"

text \<open>The character after a backslash, other than \<open>u\<close>.\<close>

definition unescape :: "jschar \<Rightarrow> jschar option" where
  "unescape e =
     (if e = 0x22 \<or> e = 0x5C \<or> e = 0x2F then Some e
      else if e = 0x62 then Some 0x08
      else if e = 0x66 then Some 0x0C
      else if e = 0x6E then Some 0x0A
      else if e = 0x72 then Some 0x0D
      else if e = 0x74 then Some 0x09
      else None)"

definition unicodeEscape :: "jsstring \<Rightarrow> (jschar \<times> jsstring) option" where
  "unicodeEscape r =
     (case r of
        h1 # h2 # h3 # h4 # r' \<Rightarrow>
          (case (hexval h1, hexval h2, hexval h3, hexval h4) of
             (Some a, Some b, Some c, Some d) \<Rightarrow>
               Some (of_nat (((a * 16 + b) * 16 + c) * 16 + d), r')
           | _ \<Rightarrow> None)
      | _ \<Rightarrow> None)"

text \<open>The body of a string literal, after its opening quote: the decoded string and
  the input after the closing quote.\<close>

fun lex_string :: "jsstring \<Rightarrow> (jsstring \<times> jsstring) option" where
  "lex_string [] = None"
| "lex_string (c # cs) =
     (if c = 0x22 then Some ([], cs)
      else if c < 0x20 then None
      else if c \<noteq> 0x5C then map_option (apfst ((#) c)) (lex_string cs)
      else (case cs of
              [] \<Rightarrow> None
            | e # r \<Rightarrow>
                if e = 0x75 then
                  (case r of
                     h1 # h2 # h3 # h4 # r' \<Rightarrow>
                       (case unicodeEscape r of
                          None \<Rightarrow> None
                        | Some (u, _) \<Rightarrow> map_option (apfst ((#) u)) (lex_string r'))
                   | _ \<Rightarrow> None)
                else (case unescape e of
                        None \<Rightarrow> None
                      | Some u \<Rightarrow> map_option (apfst ((#) u)) (lex_string r))))"


text \<open>
  A number literal: \<open>-? (0 | [1-9][0-9]*) (. [0-9]+)? ([eE] [+-]? [0-9]+)?\<close>.
  Each part returns what it read and the input after it.
\<close>

definition digitsval :: "jsstring \<Rightarrow> nat" where
  "digitsval ds = foldl (\<lambda>a c. 10 * a + (unat c - 0x30)) 0 ds"

definition lex_sign :: "jsstring \<Rightarrow> bool \<times> jsstring" where
  "lex_sign s = (case s of [] \<Rightarrow> (False, s) | c # r \<Rightarrow> if c = 0x2D then (True, r) else (False, s))"

definition lex_int :: "jsstring \<Rightarrow> (jsstring \<times> jsstring) option" where
  "lex_int s =
     (case s of
        [] \<Rightarrow> None
      | c # r \<Rightarrow>
          if c = 0x30 then Some ([c], r)
          else if isDigit c then Some (takeWhile isDigit s, dropWhile isDigit s)
          else None)"

definition lex_frac :: "jsstring \<Rightarrow> (jsstring \<times> jsstring) option" where
  "lex_frac s =
     (case s of
        [] \<Rightarrow> Some ([], s)
      | c # r \<Rightarrow>
          if c = 0x2E then
            (if takeWhile isDigit r = [] then None
             else Some (takeWhile isDigit r, dropWhile isDigit r))
          else Some ([], s))"

definition lex_exp_sign :: "jsstring \<Rightarrow> bool \<times> jsstring" where
  "lex_exp_sign s =
     (case s of
        [] \<Rightarrow> (False, s)
      | c # r \<Rightarrow> if c = 0x2D then (True, r) else if c = 0x2B then (False, r) else (False, s))"

definition lex_exp :: "jsstring \<Rightarrow> (int \<times> jsstring) option" where
  "lex_exp s =
     (case s of
        [] \<Rightarrow> Some (0, s)
      | c # r \<Rightarrow>
          if c = 0x65 \<or> c = 0x45 then
            (case lex_exp_sign r of
               (neg, r') \<Rightarrow>
                 if takeWhile isDigit r' = [] then None
                 else Some ((if neg then - 1 else 1) * int (digitsval (takeWhile isDigit r')),
                            dropWhile isDigit r'))
          else Some (0, s))"

text \<open>The mathematical value of the literal.\<close>

definition numberValue :: "bool \<Rightarrow> jsstring \<Rightarrow> jsstring \<Rightarrow> int \<Rightarrow> rat" where
  "numberValue neg ip fd e =
     (if neg then - 1 else 1) *
     (of_nat (digitsval ip) + of_nat (digitsval fd) / 10 ^ length fd) *
     (if e < 0 then 1 / 10 ^ nat (- e) else 10 ^ nat e)"

definition lex_number :: "jsstring \<Rightarrow> (rat \<times> jsstring) option" where
  "lex_number s =
     (case lex_sign s of
        (neg, s1) \<Rightarrow>
          (case lex_int s1 of
             None \<Rightarrow> None
           | Some (ip, s2) \<Rightarrow>
               (case lex_frac s2 of
                  None \<Rightarrow> None
                | Some (fd, s3) \<Rightarrow>
                    (case lex_exp s3 of
                       None \<Rightarrow> None
                     | Some (e, s4) \<Rightarrow> Some (numberValue neg ip fd e, s4)))))"

definition lex_literal :: "jsstring \<Rightarrow> (token \<times> jsstring) option" where
  "lex_literal s =
     (if take 4 s = js ''true'' then Some (TTrue, drop 4 s)
      else if take 5 s = js ''false'' then Some (TFalse, drop 5 s)
      else if take 4 s = js ''null'' then Some (TNull, drop 4 s)
      else None)"

text \<open>Every lexer returns a proper suffix of its input.\<close>

lemma lex_string_shorter: "lex_string cs = Some (s, r) \<Longrightarrow> length r < length cs"
proof (induction cs arbitrary: s r rule: lex_string.induct)
  case 1
  then show ?case by simp
next
  case (2 c cs)
  show ?case
  proof (cases "c = 0x22")
    case True
    with "2.prems" show ?thesis by simp
  next
    case quote: False
    show ?thesis
    proof (cases "c = 0x5C")
      case False
      with quote "2.prems" "2.IH"(1) show ?thesis
        by (fastforce split: if_splits)
    next
      case True
      with quote "2.prems" "2.IH"(2,3) show ?thesis
        by (fastforce split: if_splits list.splits option.splits)
    qed
  qed
qed

lemma lex_int_shorter: "lex_int s = Some (ip, r) \<Longrightarrow> length r < length s"
  by (auto simp: lex_int_def less_Suc_eq_le length_dropWhile_le split: list.splits if_splits)

lemma lex_frac_shorter: "lex_frac s = Some (fd, r) \<Longrightarrow> length r \<le> length s"
  by (auto simp: lex_frac_def le_SucI length_dropWhile_le split: list.splits if_splits)

lemma lex_exp_sign_shorter: "lex_exp_sign s = (neg, r) \<Longrightarrow> length r \<le> length s"
  by (auto simp: lex_exp_sign_def split: list.splits if_splits)

lemma lex_exp_shorter: "lex_exp s = Some (e, r) \<Longrightarrow> length r \<le> length s"
proof -
  assume a: "lex_exp s = Some (e, r)"
  show ?thesis
  proof (cases s)
    case Nil
    with a show ?thesis by (simp add: lex_exp_def)
  next
    case (Cons c t)
    obtain neg t' where sg: "lex_exp_sign t = (neg, t')" by (cases "lex_exp_sign t")
    have "length (dropWhile isDigit t') \<le> length t'" by (rule length_dropWhile_le)
    with lex_exp_sign_shorter [OF sg] have "length (dropWhile isDigit t') \<le> Suc (length t)"
      by simp
    with a Cons sg show ?thesis
      by (auto simp: lex_exp_def split: if_splits)
  qed
qed

lemma lex_sign_shorter: "lex_sign s = (neg, r) \<Longrightarrow> length r \<le> length s"
  by (auto simp: lex_sign_def split: list.splits if_splits)

lemma lex_number_shorter: "lex_number s = Some (n, r) \<Longrightarrow> length r < length s"
proof -
  assume a: "lex_number s = Some (n, r)"
  obtain neg s1 where sg: "lex_sign s = (neg, s1)" by (cases "lex_sign s")
  from a sg obtain ip s2 where i: "lex_int s1 = Some (ip, s2)"
    by (auto simp: lex_number_def split: option.splits)
  from a sg i obtain fd s3 where f: "lex_frac s2 = Some (fd, s3)"
    by (auto simp: lex_number_def split: option.splits)
  from a sg i f obtain e where x: "lex_exp s3 = Some (e, r)"
    by (auto simp: lex_number_def split: option.splits)
  from lex_sign_shorter [OF sg] lex_int_shorter [OF i] lex_frac_shorter [OF f]
    lex_exp_shorter [OF x]
  show ?thesis by simp
qed

lemma lex_literal_shorter: "lex_literal s = Some (t, r) \<Longrightarrow> length r < length s"
  by (cases s) (auto simp: lex_literal_def js_def split: if_splits)

text \<open>The token sequence of a text; \<open>None\<close> when some character starts no token.\<close>

function tokenize :: "jsstring \<Rightarrow> token list option" where
  "tokenize [] = Some []"
| "tokenize (c # cs) =
     (if isJsonWs c then tokenize cs
      else if c = 0x7B then map_option ((#) TLBrace) (tokenize cs)
      else if c = 0x7D then map_option ((#) TRBrace) (tokenize cs)
      else if c = 0x5B then map_option ((#) TLBracket) (tokenize cs)
      else if c = 0x5D then map_option ((#) TRBracket) (tokenize cs)
      else if c = 0x3A then map_option ((#) TColon) (tokenize cs)
      else if c = 0x2C then map_option ((#) TComma) (tokenize cs)
      else if c = 0x22 then
        (case lex_string cs of
           None \<Rightarrow> None
         | Some (s, r) \<Rightarrow> map_option ((#) (TString s)) (tokenize r))
      else if c = 0x2D \<or> isDigit c then
        (case lex_number (c # cs) of
           None \<Rightarrow> None
         | Some (n, r) \<Rightarrow> map_option ((#) (TNumber n)) (tokenize r))
      else
        (case lex_literal (c # cs) of
           None \<Rightarrow> None
         | Some (t, r) \<Rightarrow> map_option ((#) t) (tokenize r)))"
  by pat_completeness auto
termination
proof (relation "measure length")
  show "wf (measure length)" by simp
next
  fix c cs x2 x y
  assume "lex_string cs = Some x2" "(x, y) = x2"
  then have "lex_string cs = Some (x, y)" by simp
  from lex_string_shorter [OF this] show "(y, c # cs) \<in> measure length" by simp
next
  fix c cs x2 x y
  assume "lex_number (c # cs) = Some x2" "(x, y) = x2"
  then have "lex_number (c # cs) = Some (x, y)" by simp
  from lex_number_shorter [OF this] show "(y, c # cs) \<in> measure length" by simp
next
  fix c cs x2 x y
  assume "lex_literal (c # cs) = Some x2" "(x, y) = x2"
  then have "lex_literal (c # cs) = Some (x, y)" by simp
  from lex_literal_shorter [OF this] show "(y, c # cs) \<in> measure length" by simp
qed simp_all


subsection \<open>The grammar\<close>

text \<open>
  \<open>JSON.parse\<close> creates each property of an object as it reads it: a key read again
  keeps its place and takes the new value. An object lists first the keys that are array
  indices, in ascending order, then its other keys in the order of their creation. An array
  index is the decimal text, without a leading zero, of an integer below \<open>2\<^sup>3\<^sup>2 - 1\<close>.
\<close>

definition arrayIndex :: "jsstring \<Rightarrow> int option" where
  "arrayIndex k =
     (let i = foldl (\<lambda>a c. 10 * a + (uint c - 0x30)) 0 k
      in if k = [0x30] then Some 0
         else if k \<noteq> [] \<and> list_all isDigit k \<and> hd k \<noteq> 0x30 \<and> i < 4294967295 then Some i
         else None)"

definition listedBefore :: "jsstring \<Rightarrow> jsstring \<Rightarrow> bool" where
  "listedBefore k k' =
     (case arrayIndex k of
        None \<Rightarrow> False
      | Some i \<Rightarrow> (case arrayIndex k' of None \<Rightarrow> True | Some j \<Rightarrow> i < j))"

fun defineProperty :: "(jsstring \<times> json) list \<Rightarrow> jsstring \<Rightarrow> json \<Rightarrow> (jsstring \<times> json) list" where
  "defineProperty [] k v = [(k, v)]"
| "defineProperty (p # ps) k v =
     (if fst p = k then (k, v) # ps
      else if listedBefore k (fst p) then (k, v) # p # ps
      else p # defineProperty ps k v)"

text \<open>
  The containers that are open while a value is read: an array with the elements read
  so far, or an object with the properties read so far and the key whose value is
  being read.
\<close>

datatype frame = FArray "json list" | FObject "(jsstring \<times> json) list" jsstring

text \<open>
  The grammar of ECMA-404 over the tokens, with the open containers on a stack:
  \<open>expect_value\<close> reads the start of a value, \<open>after_value\<close> takes a complete value to
  the innermost open container, \<open>expect_key\<close> reads a key and its colon.
\<close>

fun expect_value :: "frame list \<Rightarrow> token list \<Rightarrow> json option"
  and after_value :: "frame list \<Rightarrow> json \<Rightarrow> token list \<Rightarrow> json option"
  and expect_key :: "(jsstring \<times> json) list \<Rightarrow> frame list \<Rightarrow> token list \<Rightarrow> json option"
where
  "expect_value st [] = None"
| "expect_value st (t # ts) =
     (case t of
        TString s \<Rightarrow> after_value st (JString s) ts
      | TNumber n \<Rightarrow> after_value st (JNumber n) ts
      | TTrue \<Rightarrow> after_value st (JBool True) ts
      | TFalse \<Rightarrow> after_value st (JBool False) ts
      | TNull \<Rightarrow> after_value st JNull ts
      | TLBracket \<Rightarrow>
          (case ts of
             TRBracket # ts' \<Rightarrow> after_value st (JArray []) ts'
           | _ \<Rightarrow> expect_value (FArray [] # st) ts)
      | TLBrace \<Rightarrow>
          (case ts of
             TRBrace # ts' \<Rightarrow> after_value st (JObject []) ts'
           | _ \<Rightarrow> expect_key [] st ts)
      | _ \<Rightarrow> None)"
| "after_value [] v ts = (if ts = [] then Some v else None)"
| "after_value (f # st) v [] = None"
| "after_value (f # st) v (t # ts) =
     (case f of
        FArray acc \<Rightarrow>
          (case t of
             TComma \<Rightarrow> expect_value (FArray (acc @ [v]) # st) ts
           | TRBracket \<Rightarrow> after_value st (JArray (acc @ [v])) ts
           | _ \<Rightarrow> None)
      | FObject ms k \<Rightarrow>
          (case t of
             TComma \<Rightarrow> expect_key (defineProperty ms k v) st ts
           | TRBrace \<Rightarrow> after_value st (JObject (defineProperty ms k v)) ts
           | _ \<Rightarrow> None))"
| "expect_key ms st [] = None"
| "expect_key ms st (t # ts) =
     (case t of
        TString k \<Rightarrow>
          (case ts of
             TColon # ts' \<Rightarrow> expect_value (FObject ms k # st) ts'
           | _ \<Rightarrow> None)
      | _ \<Rightarrow> None)"

text \<open>\<open>JSON.parse(text)\<close> for a string \<open>text\<close>; \<open>None\<close> is the SyntaxError it throws.\<close>

definition JSON_parse :: "jsstring \<Rightarrow> json option" where
  "JSON_parse text = (case tokenize text of None \<Rightarrow> None | Some ts \<Rightarrow> expect_value [] ts)"

section \<open>Coercion of the model's reply\<close>

text \<open>The four entries of \<open>candidates\<close>; \<open>None\<close> is the \<open>null\<close> of \<open>extractJsonBlock\<close>.\<close>

definition candidates :: "jsstring \<Rightarrow> jsstring option list" where
  "candidates raw =
     (let cleaned = stripCodeFences raw;
          normalized = normalizeQuotes cleaned;
          withoutPrefix = stripJsonPrefix normalized
      in [Some normalized, Some withoutPrefix,
          extractJsonBlock normalized, extractJsonBlock withoutPrefix])"

text \<open>The loop over the candidates: a \<open>null\<close> or empty candidate is skipped, a
  candidate on which \<open>JSON.parse\<close> throws is skipped by the \<open>catch\<close>, and the first value
  parsed is returned; \<open>null\<close> when the loop ends.\<close>

fun tryCandidates :: "jsstring option list \<Rightarrow> json" where
  "tryCandidates [] = JNull"
| "tryCandidates (None # cs) = tryCandidates cs"
| "tryCandidates (Some c # cs) =
     (if c = [] then tryCandidates cs
      else (case JSON_parse c of Some v \<Rightarrow> v | None \<Rightarrow> tryCandidates cs))"

definition coerceModelJson :: "jsstring \<Rightarrow> json" where
  "coerceModelJson raw = (if raw = [] then JNull else tryCandidates (candidates raw))"


section \<open>Summarization\<close>

text \<open>A thrown \<open>Error\<close>, with its \<open>message\<close>.\<close>

datatype js_error = Error (message: jsstring)

text \<open>\<open>.replace(/\s+/g, ' ')\<close>: every maximal run of white space becomes one space. The
  flag says whether the previous code unit was white space.\<close>

fun collapseSpaces :: "bool \<Rightarrow> jsstring \<Rightarrow> jsstring" where
  "collapseSpaces inRun [] = []"
| "collapseSpaces inRun (c # cs) =
     (if isSpace c then (if inRun then collapseSpaces True cs else 0x20 # collapseSpaces True cs)
      else c # collapseSpaces False cs)"

definition condense :: "jsstring \<Rightarrow> jsstring" where
  "condense rawText = slice (trim (collapseSpaces False rawText)) 0 20000"

definition buildPrompt :: "jsstring \<Rightarrow> jsstring" where
  \<open>buildPrompt rawText =
     js ''Do not respond to any other than the following schema. You are an expert scientific reviewer creating structured notes for a literature review & do not mention yourself in the output. '' @
     js ''Analyze the following research paper text and respond with STRICT JSON using this schema:'' @ [0x0A] @
     js ''{"concise_summary": string, "key_points": [string], "novelty": string, "limitations": string, "next_questions": [string]}'' @ [0x0A] @
     js ''Text: """'' @ condense rawText @ js ''"""''\<close>

definition warningSummary :: json where
  "warningSummary =
     JObject [(js ''warning'', JString (js ''Gemini API key is not configured. No summary available.''))]"

definition parsingNote :: jsstring where
  "parsingNote = js ''Model returned non-JSON text; included raw response instead.''"

definition unparsedSummary :: "jsstring \<Rightarrow> json" where
  "unparsedSummary raw =
     JObject [(js ''unparsed_summary'', JString raw), (js ''parsing_note'', JString parsingNote)]"

text \<open>The coercion step of \<open>summarizeForReview\<close>, from the trimmed reply \<open>raw\<close> on:
  \<open>parsed = coerceModelJson(raw); if (parsed) return parsed; return {unparsed_summary, parsing_note}\<close>.\<close>

definition coerceReply :: "jsstring \<Rightarrow> json" where
  "coerceReply raw =
     (let parsed = coerceModelJson raw in if truthy parsed then parsed else unparsedSummary raw)"

text \<open>
  \<open>reviewModel\<close> is \<open>None\<close> when no API key is configured; otherwise it is the outcome of
  \<open>generateContent\<close> and \<open>response.text()\<close> on a prompt: the reply, or the error thrown.
\<close>

definition summarizeForReview ::
  "(jsstring \<Rightarrow> js_error + jsstring) option \<Rightarrow> jsstring \<Rightarrow> js_error + json" where
  "summarizeForReview reviewModel rawText =
     (case reviewModel of
        None \<Rightarrow> Inr warningSummary
      | Some generateContent \<Rightarrow>
          (case generateContent (buildPrompt rawText) of
             Inl e \<Rightarrow> Inl e
           | Inr reply \<Rightarrow> Inr (coerceReply (trim reply))))"

section \<open>The analysis of uploaded files\<close>

record uploaded_file =
  originalname :: jsstring
  mimetype :: jsstring
  buffer :: "8 word list"

text \<open>What \<open>PDFParse.getText\<close> resolves to: \<open>text\<close>, \<open>total\<close> and the length of \<open>pages\<close>,
  each possibly missing.\<close>

record pdf_result =
  pdf_text :: "jsstring option"
  pdf_total :: "nat option"
  pdf_pages_length :: "nat option"

text \<open>\<open>a || b\<close> on numbers that may be missing: the first that is present and not zero.\<close>

definition orElse :: "nat option \<Rightarrow> nat option \<Rightarrow> nat option" where
  "orElse a b = (case a of Some n \<Rightarrow> if n = 0 then b else Some n | None \<Rightarrow> b)"

definition extractTextFromPdf ::
  "('b \<Rightarrow> js_error + pdf_result) \<Rightarrow> 'b \<Rightarrow> js_error + (jsstring \<times> nat option)" where
  "extractTextFromPdf getText buf =
     (case getText buf of
        Inl e \<Rightarrow> Inl e
      | Inr result \<Rightarrow>
          Inr (case pdf_text result of None \<Rightarrow> [] | Some t \<Rightarrow> t,
               orElse (orElse (pdf_total result) (pdf_pages_length result)) None))"

text \<open>An entry of \<open>results\<close>; a property the object literal does not give is \<open>None\<close>.\<close>

record analysis_result =
  id' :: jsstring
  originalName :: jsstring
  status :: "jsstring option"
  error :: "jsstring option"
  pages :: "nat option"
  textContent :: "jsstring option"
  textFileName :: "jsstring option"
  characters :: "nat option"
  summary :: "json option"

definition failedResult :: "jsstring \<Rightarrow> uploaded_file \<Rightarrow> jsstring \<Rightarrow> analysis_result" where
  "failedResult uuid file reason =
     \<lparr>id' = uuid, originalName = originalname file, status = Some (js ''failed''),
      error = Some reason, pages = None, textContent = None, textFileName = None,
      characters = None, summary = None\<rparr>"

text \<open>\<open>sanitizeFileName\<close>: every code unit outside \<open>[a-zA-Z0-9-_.]\<close> becomes a dash, runs
  of dashes become one, a dash at the start and a dash at the end are removed, and the
  rest (ASCII by then) is lower-cased; \<open>paper\<close> when nothing is left.\<close>

definition isFileNameChar :: "jschar \<Rightarrow> bool" where
  "isFileNameChar c \<longleftrightarrow> isAlnum c \<or> c = 0x2D \<or> c = 0x5F \<or> c = 0x2E"

fun collapseDashes :: "jsstring \<Rightarrow> jsstring" where
  "collapseDashes (a # b # cs) =
     (if a = 0x2D \<and> b = 0x2D then collapseDashes (b # cs) else a # collapseDashes (b # cs))"
| "collapseDashes cs = cs"

definition stripEdgeDashes :: "jsstring \<Rightarrow> jsstring" where
  "stripEdgeDashes s =
     (let s1 = (case s of c # r \<Rightarrow> if c = 0x2D then r else s | [] \<Rightarrow> s)
      in if s1 \<noteq> [] \<and> last s1 = 0x2D then butlast s1 else s1)"

definition sanitizeFileName :: "jsstring \<Rightarrow> jsstring" where
  "sanitizeFileName name =
     (let s = map lowerAscii
                (stripEdgeDashes
                  (collapseDashes (map (\<lambda>c. if isFileNameChar c then c else 0x2D) name)))
      in if s = [] then js ''paper'' else s)"

text \<open>
  The repository has the service twice: with bearer tokens kept in memory, and with
  cookie sessions and a database. The two analyze handlers differ in one property of a
  result: only the session variant gives \<open>textFileName\<close>.
\<close>

datatype variant = TokenVariant | SessionVariant

text \<open>
  What the service calls from outside the repository: the PDF parser (\<open>getText\<close>, with
  the release of the parser), the model, and \<open>path.parse(...).name\<close>.
\<close>

record platform =
  variant :: variant
  getText :: "8 word list \<Rightarrow> js_error + pdf_result"
  reviewModel :: "(jsstring \<Rightarrow> js_error + jsstring) option"
  pathName :: "jsstring \<Rightarrow> jsstring"

definition textFileNameOf :: "platform \<Rightarrow> jsstring \<Rightarrow> jsstring option" where
  "textFileNameOf env original =
     (case variant env of
        TokenVariant \<Rightarrow> None
      | SessionVariant \<Rightarrow>
          (let safeName = sanitizeFileName (pathName env original)
           in Some ((if safeName = [] then js ''paper'' else safeName) @ js ''.txt'')))"

text \<open>The body of the loop over \<open>req.files\<close>: the inner \<open>try\<close> with its \<open>catch\<close>.\<close>

definition analyzeFile :: "platform \<Rightarrow> jsstring \<Rightarrow> uploaded_file \<Rightarrow> analysis_result" where
  "analyzeFile env uuid file =
     (case extractTextFromPdf (getText env) (buffer file) of
        Inl e \<Rightarrow>
          failedResult uuid file (if message e = [] then js ''Failed to parse PDF'' else message e)
      | Inr (extracted, pageCount) \<Rightarrow>
          (let trimmedText = trim extracted in
           if trimmedText = [] then
             failedResult uuid file (js ''No textual content detected in PDF.'')
           else
             (case summarizeForReview (reviewModel env) trimmedText of
                Inl e \<Rightarrow>
                  failedResult uuid file
                    (if message e = [] then js ''Failed to parse PDF'' else message e)
              | Inr s \<Rightarrow>
                  \<lparr>id' = uuid, originalName = originalname file, status = None, error = None,
                   pages = pageCount, textContent = Some trimmedText,
                   textFileName = textFileNameOf env (originalname file),
                   characters = Some (length trimmedText), summary = Some s\<rparr>)))"

text \<open>The loop: \<open>results\<close> grows by one entry per file; \<open>uuids n\<close> is the \<open>n\<close>-th value
  \<open>crypto.randomUUID()\<close> returns during the request. Nothing in the loop body throws
  past its \<open>catch\<close>, so the outer \<open>catch\<close> with its status 500 is never reached.\<close>

fun analyzeLoop ::
  "platform \<Rightarrow> (nat \<Rightarrow> jsstring) \<Rightarrow> uploaded_file list \<Rightarrow> analysis_result list \<Rightarrow> analysis_result list" where
  "analyzeLoop env uuids [] results = results"
| "analyzeLoop env uuids (file # files) results =
     analyzeLoop env uuids files (results @ [analyzeFile env (uuids (length results)) file])"

record analyze_response =
  generatedAt :: jsstring
  totalPapers :: nat
  results :: "analysis_result list"

text \<open>An error response: the status code and the \<open>error\<close> text of its JSON body.\<close>

datatype http_error = HttpError nat jsstring

text \<open>The handler of \<open>POST /api/analyze\<close>, after \<open>requireAuth\<close> and the upload middleware
  (which admits at most five files).\<close>

definition analyze ::
  "platform \<Rightarrow> jsstring \<Rightarrow> (nat \<Rightarrow> jsstring) \<Rightarrow> uploaded_file list \<Rightarrow> http_error + analyze_response" where
  "analyze env now uuids files =
     (if files = [] then Inl (HttpError 400 (js ''Please upload at least one PDF file.''))
      else (let rs = analyzeLoop env uuids files [] in
            Inr \<lparr>generatedAt = now, totalPapers = length rs, results = rs\<rparr>))"


section \<open>The shapes of a summary\<close>

text \<open>
  The SummaryObject, by the schema that the prompt states: \<open>concise_summary\<close>, \<open>novelty\<close>
  and \<open>limitations\<close> are strings, \<open>key_points\<close> and \<open>next_questions\<close> are sequences of
  strings. The unparsed-summary failure carries the strings \<open>unparsed_summary\<close> and
  \<open>parsing_note\<close>.
\<close>

definition isString :: "json \<Rightarrow> bool" where
  "isString v = (case v of JString s \<Rightarrow> True | _ \<Rightarrow> False)"

definition isStringList :: "json \<Rightarrow> bool" where
  "isStringList v = (case v of JArray xs \<Rightarrow> list_all isString xs | _ \<Rightarrow> False)"

definition hasProperty :: "(json \<Rightarrow> bool) \<Rightarrow> json \<Rightarrow> jsstring \<Rightarrow> bool" where
  "hasProperty P v k =
     (case v of
        JObject ms \<Rightarrow> (case map_of ms k of Some x \<Rightarrow> P x | None \<Rightarrow> False)
      | _ \<Rightarrow> False)"

definition isSummaryObject :: "json \<Rightarrow> bool" where
  "isSummaryObject v \<longleftrightarrow>
     hasProperty isString v (js ''concise_summary'') \<and>
     hasProperty isStringList v (js ''key_points'') \<and>
     hasProperty isString v (js ''novelty'') \<and>
     hasProperty isString v (js ''limitations'') \<and>
     hasProperty isStringList v (js ''next_questions'')"

definition isUnparsedSummary :: "json \<Rightarrow> bool" where
  "isUnparsedSummary v \<longleftrightarrow>
     hasProperty isString v (js ''unparsed_summary'') \<and>
     hasProperty isString v (js ''parsing_note'')"

text \<open>The candidates that are strings, in order, and the first of a list of texts that
  \<open>JSON.parse\<close> accepts.\<close>

definition candidateStrings :: "jsstring \<Rightarrow> jsstring list" where
  "candidateStrings raw = [s. Some s \<leftarrow> candidates raw]"

fun firstParsed :: "jsstring list \<Rightarrow> json option" where
  "firstParsed [] = None"
| "firstParsed (c # cs) = (case JSON_parse c of Some v \<Rightarrow> Some v | None \<Rightarrow> firstParsed cs)"

section \<open>Properties of the coercion\<close>

lemma JSON_parse_empty: "JSON_parse [] = None"
  by (simp add: JSON_parse_def)

text \<open>The keys of a parsed object: the array indices first, in ascending order, and a key
  that was read twice once, with its last value.\<close>

lemma JSON_parse_key_order:
  \<open>JSON_parse (js ''{"b":1,"2":2,"a":3,"10":4,"b":5,"01":6}'') =
     Some (JObject [(js ''2'', JNumber 2), (js ''10'', JNumber 4), (js ''b'', JNumber 5),
                    (js ''a'', JNumber 3), (js ''01'', JNumber 6)])\<close>
  by code_simp

lemma coerce_array_reply: "coerceModelJson (js ''[1]'') = JArray [JNumber 1]"
  by code_simp

lemma coerce_string_reply: \<open>coerceModelJson (js ''"hello"'') = JString (js ''hello'')\<close>
  by code_simp

lemma coerce_number_reply: "coerceModelJson (js ''42'') = JNumber 42"
  by code_simp

lemma tryCandidates_cases:
  "tryCandidates cs = JNull \<or>
   (\<exists>c. Some c \<in> set cs \<and> c \<noteq> [] \<and> JSON_parse c = Some (tryCandidates cs))"
  by (induction cs rule: tryCandidates.induct) (auto split: option.splits)

lemma coerceModelJson_cases:
  "coerceModelJson raw = JNull \<or>
   (\<exists>c. Some c \<in> set (candidates raw) \<and> c \<noteq> [] \<and>
        JSON_parse c = Some (coerceModelJson raw))"
proof (cases "raw = []")
  case True
  then show ?thesis by (simp add: coerceModelJson_def)
next
  case False
  then have "coerceModelJson raw = tryCandidates (candidates raw)"
    by (simp add: coerceModelJson_def)
  with tryCandidates_cases [of "candidates raw"] show ?thesis by simp
qed

lemma coerceReply_truthy: "truthy (coerceModelJson raw) \<Longrightarrow> coerceReply raw = coerceModelJson raw"
  by (simp add: coerceReply_def)

lemma coerceReply_falsy:
  "\<not> truthy (coerceModelJson raw) \<Longrightarrow> coerceReply raw = unparsedSummary raw"
  by (simp add: coerceReply_def)

text \<open>
  C1, as the code has it. The coercion step of summarization is a total function of the
  reply: \<open>JSON.parse\<close> is its only call that throws, and the \<open>catch\<close> turns the throw into
  the next candidate. Its result is the unparsed-summary failure for the reply, or a truthy
  value that \<open>JSON.parse\<close> returned for one of the non-empty candidates. Nothing checks
  that value against the SummaryObject schema.
\<close>

theorem coerceReply_total:
  "coerceReply raw = unparsedSummary raw \<or>
   (truthy (coerceReply raw) \<and>
    (\<exists>c. Some c \<in> set (candidates raw) \<and> c \<noteq> [] \<and> JSON_parse c = Some (coerceReply raw)))"
proof (cases "truthy (coerceModelJson raw)")
  case False
  then show ?thesis by (simp add: coerceReply_falsy)
next
  case True
  then have "coerceModelJson raw \<noteq> JNull" by auto
  with coerceModelJson_cases [of raw] True show ?thesis
    by (simp add: coerceReply_truthy)
qed

theorem coerceReply_total_witness:
  "coerceReply (js ''[1]'') = JArray [JNumber 1] \<and>
   truthy (coerceReply (js ''[1]'')) \<and>
   (\<exists>c. Some c \<in> set (candidates (js ''[1]'')) \<and> c \<noteq> [] \<and>
        JSON_parse c = Some (coerceReply (js ''[1]'')))"
proof -
  have v: "coerceReply (js ''[1]'') = JArray [JNumber 1]" by code_simp
  have "coerceReply (js ''[1]'') \<noteq> unparsedSummary (js ''[1]'')"
    by (simp add: v unparsedSummary_def)
  with coerceReply_total [of "js ''[1]''"] v show ?thesis by simp
qed

text \<open>C1 as stated fails: for the reply \<open>[1]\<close> the coercion step returns the array, which
  is neither a SummaryObject nor an unparsed-summary failure.\<close>

theorem coerceReply_not_schema:
  "\<not> (isSummaryObject (coerceReply (js ''[1]'')) \<or> isUnparsedSummary (coerceReply (js ''[1]'')))"
  by code_simp

text \<open>
  C10. Coercion accepts values that are no objects: for the replies \<open>[1]\<close>, \<open>"hello"\<close> and
  \<open>42\<close>, \<open>coerceModelJson\<close> returns the array, the string and the number, none of them a
  SummaryObject, and \<open>summarizeForReview\<close> returns each as the summary, not as a failure.
\<close>

theorem coercion_accepts_non_objects:
  \<open>coerceModelJson (js ''[1]'') = JArray [JNumber 1] \<and>
   \<not> isSummaryObject (JArray [JNumber 1]) \<and>
   summarizeForReview (Some (\<lambda>prompt. Inr (js ''[1]''))) rawText = Inr (JArray [JNumber 1]) \<and>
   coerceModelJson (js ''"hello"'') = JString (js ''hello'') \<and>
   \<not> isSummaryObject (JString (js ''hello'')) \<and>
   summarizeForReview (Some (\<lambda>prompt. Inr (js ''"hello"''))) rawText = Inr (JString (js ''hello'')) \<and>
   coerceModelJson (js ''42'') = JNumber 42 \<and>
   \<not> isSummaryObject (JNumber 42) \<and>
   summarizeForReview (Some (\<lambda>prompt. Inr (js ''42''))) rawText = Inr (JNumber 42)\<close>
proof -
  have t1: "trim (js ''[1]'') = js ''[1]''" by code_simp
  have t2: \<open>trim (js ''"hello"'') = js ''"hello"''\<close> by code_simp
  have t3: "trim (js ''42'') = js ''42''" by code_simp
  have s1: "summarizeForReview (Some (\<lambda>prompt. Inr (js ''[1]''))) rawText = Inr (JArray [JNumber 1])"
    by (simp add: summarizeForReview_def t1 coerceReply_def coerce_array_reply)
  have s2: \<open>summarizeForReview (Some (\<lambda>prompt. Inr (js ''"hello"''))) rawText = Inr (JString (js ''hello''))\<close>
    by (simp add: summarizeForReview_def t2 coerceReply_def coerce_string_reply) (simp add: js_def)
  have s3: "summarizeForReview (Some (\<lambda>prompt. Inr (js ''42''))) rawText = Inr (JNumber 42)"
    by (simp add: summarizeForReview_def t3 coerceReply_def coerce_number_reply)
  have n: "\<not> isSummaryObject (JArray [JNumber 1])" "\<not> isSummaryObject (JString (js ''hello''))"
    "\<not> isSummaryObject (JNumber 42)"
    by (simp_all add: isSummaryObject_def hasProperty_def)
  from s1 s2 s3 n coerce_array_reply coerce_string_reply coerce_number_reply
  show ?thesis by simp
qed

lemma tryCandidates_firstParsed:
  "tryCandidates cs = (case firstParsed [s. Some s \<leftarrow> cs] of Some v \<Rightarrow> v | None \<Rightarrow> JNull)"
  by (induction cs rule: tryCandidates.induct) (auto simp: JSON_parse_empty split: option.splits)

lemma indexOf_append: "c \<notin> set pre \<Longrightarrow> indexOf c (pre @ c # post) = Some (length pre)"
  by (induction pre) auto

lemma indexOf_split:
  "indexOf c t = Some i \<Longrightarrow> \<exists>pre post. t = pre @ c # post \<and> c \<notin> set pre \<and> i = length pre"
proof (induction t arbitrary: i)
  case Nil
  then show ?case by simp
next
  case (Cons x xs)
  show ?case
  proof (cases "x = c")
    case True
    with Cons.prems have "x # xs = [] @ c # xs \<and> c \<notin> set [] \<and> i = length ([] :: jsstring)"
      by simp
    then show ?thesis by blast
  next
    case False
    with Cons.prems obtain k where k: "indexOf c xs = Some k" and i: "i = Suc k" by auto
    from Cons.IH [OF k] obtain pre post where "xs = pre @ c # post" "c \<notin> set pre" "k = length pre"
      by blast
    with False i have "x # xs = (x # pre) @ c # post \<and> c \<notin> set (x # pre) \<and> i = length (x # pre)"
      by simp
    then show ?thesis by blast
  qed
qed

lemma lastIndexOf_None: "c \<notin> set s \<Longrightarrow> lastIndexOf c s = None"
  by (induction s) auto

lemma lastIndexOf_append:
  "c \<notin> set post \<Longrightarrow> lastIndexOf c (pre @ c # post) = Some (length pre)"
  by (induction pre) (simp_all add: lastIndexOf_None)

lemma lastIndexOf_split:
  "lastIndexOf c t = Some j \<Longrightarrow> \<exists>pre post. t = pre @ c # post \<and> c \<notin> set post \<and> j = length pre"
proof -
  assume a: "lastIndexOf c t = Some j"
  with lastIndexOf_None [of c t] have "c \<in> set t" by auto
  then obtain pre post where p: "t = pre @ c # post" "c \<notin> set post"
    by (auto dest: split_list_last)
  with lastIndexOf_append [OF p(2), of pre] a have "j = length pre" by simp
  with p show ?thesis by blast
qed

text \<open>In the words of the specification: \<open>b\<close> is the substring of \<open>t\<close> from the first
  \<open>{\<close> to the last \<open>}\<close>.\<close>

definition isBraceBlock :: "jsstring \<Rightarrow> jsstring \<Rightarrow> bool" where
  "isBraceBlock t b \<longleftrightarrow>
     (\<exists>pre mid post. t = pre @ 0x7B # mid @ 0x7D # post \<and> 0x7B \<notin> set pre \<and>
        0x7D \<notin> set post \<and> b = 0x7B # mid @ [0x7D])"

lemma extractJsonBlock_Some: "extractJsonBlock t = Some b \<longleftrightarrow> isBraceBlock t b"
  unfolding isBraceBlock_def
proof
  assume a: "extractJsonBlock t = Some b"
  then obtain i j where i: "indexOf 0x7B t = Some i" and j: "lastIndexOf 0x7D t = Some j"
    and lt: "i < j" and b: "b = slice t i (j + 1)"
    by (auto simp: extractJsonBlock_def split: option.splits if_splits)
  from indexOf_split [OF i] obtain pre r where
    t1: "t = pre @ 0x7B # r" and p: "0x7B \<notin> set pre" and il: "i = length pre" by blast
  from lastIndexOf_split [OF j] obtain q post where
    t2: "t = q @ 0x7D # post" and po: "0x7D \<notin> set post" and jl: "j = length q" by blast
  from lt il jl have len: "length pre < length q" by simp
  from t1 t2 have e: "pre @ 0x7B # r = q @ 0x7D # post" by simp
  from arg_cong [OF e, of "drop (length pre)"] len
  have d: "0x7B # r = drop (length pre) q @ 0x7D # post" by simp
  from arg_cong [OF e, of "take (length pre)"] len
  have tk: "pre = take (length pre) q" by simp
  from len have "drop (length pre) q \<noteq> []" by simp
  with d obtain mid where m: "drop (length pre) q = 0x7B # mid"
    by (cases "drop (length pre) q") auto
  have "q = take (length pre) q @ drop (length pre) q" by simp
  with tk m have q: "q = pre @ 0x7B # mid" by simp
  with t2 have t3: "t = pre @ 0x7B # mid @ 0x7D # post" by simp
  from q jl il have "j + 1 - i = Suc (Suc (length mid))" by simp
  with t3 il have "slice t i (j + 1) = 0x7B # mid @ [0x7D]" by (simp add: slice_def)
  with b t3 p po show "\<exists>pre mid post. t = pre @ 0x7B # mid @ 0x7D # post \<and> 0x7B \<notin> set pre \<and>
        0x7D \<notin> set post \<and> b = 0x7B # mid @ [0x7D]" by blast
next
  assume "\<exists>pre mid post. t = pre @ 0x7B # mid @ 0x7D # post \<and> 0x7B \<notin> set pre \<and>
        0x7D \<notin> set post \<and> b = 0x7B # mid @ [0x7D]"
  then obtain pre mid post where t: "t = pre @ 0x7B # mid @ 0x7D # post" and p: "0x7B \<notin> set pre"
    and q: "0x7D \<notin> set post" and b: "b = 0x7B # mid @ [0x7D]" by blast
  from t p have i: "indexOf 0x7B t = Some (length pre)" by (simp add: indexOf_append)
  from t have t': "t = (pre @ 0x7B # mid) @ 0x7D # post" by simp
  have j: "lastIndexOf 0x7D t = Some (length (pre @ 0x7B # mid))"
    unfolding t' using q by (rule lastIndexOf_append)
  from t have "slice t (length pre) (length (pre @ 0x7B # mid) + 1) = 0x7B # mid @ [0x7D]"
    by (simp add: slice_def)
  with i j b show "extractJsonBlock t = Some b" by (simp add: extractJsonBlock_def)
qed

section \<open>Properties of the analysis\<close>

text \<open>The loop appends the result of each file, in order.\<close>

lemma analyzeLoop_map:
  "analyzeLoop env uuids files acc =
     acc @ map (\<lambda>i. analyzeFile env (uuids (length acc + i)) (files ! i)) [0..<length files]"
proof (induction files arbitrary: acc)
  case Nil
  then show ?case by simp
next
  case (Cons f fs)
  show ?case
    by (simp add: Cons.IH map_upt_Suc del: upt_Suc)
qed

lemma analyzeLoop_length: "length (analyzeLoop env uuids files []) = length files"
  by (simp add: analyzeLoop_map)

lemma analyzeLoop_nth:
  "i < length files \<Longrightarrow> analyzeLoop env uuids files [] ! i = analyzeFile env (uuids i) (files ! i)"
  by (simp add: analyzeLoop_map)

lemma analyzeFile_originalName: "originalName (analyzeFile env uuid file) = originalname file"
  by (simp add: analyzeFile_def failedResult_def Let_def split: sum.splits prod.splits)

text \<open>The two failures of a file that the handler names: the extraction throws, or the
  extracted text is empty after trimming.\<close>

definition extractionFails :: "platform \<Rightarrow> uploaded_file \<Rightarrow> bool" where
  "extractionFails env file =
     (case extractTextFromPdf (getText env) (buffer file) of
        Inl e \<Rightarrow> True
      | Inr (extracted, pageCount) \<Rightarrow> trim extracted = [])"

lemma analyzeFile_failed:
  "extractionFails env file \<Longrightarrow>
   status (analyzeFile env uuid file) = Some (js ''failed'') \<and>
   error (analyzeFile env uuid file) \<noteq> None \<and> summary (analyzeFile env uuid file) = None"
  by (auto simp: extractionFails_def analyzeFile_def failedResult_def Let_def
      split: sum.splits prod.splits)

text \<open>
  C2. An upload with no file is refused with status 400 before any file is looked at.
  Otherwise the response carries exactly one result per file, in the order of the upload:
  the \<open>i\<close>-th result is what the loop body makes of the \<open>i\<close>-th file alone (and the
  \<open>i\<close>-th identifier), whatever the other files are, and it bears that file's name. A file
  whose extraction throws or yields no text gets a result marked \<open>failed\<close> with an error
  text; the loop goes on.
\<close>

theorem analyze_per_file:
  "(files = [] \<longrightarrow>
      analyze env now uuids files = Inl (HttpError 400 (js ''Please upload at least one PDF file.''))) \<and>
   (files \<noteq> [] \<longrightarrow>
      (\<exists>resp. analyze env now uuids files = Inr resp \<and>
         length (results resp) = length files \<and> totalPapers resp = length files \<and>
         (\<forall>i<length files.
            results resp ! i = analyzeFile env (uuids i) (files ! i) \<and>
            originalName (results resp ! i) = originalname (files ! i) \<and>
            (extractionFails env (files ! i) \<longrightarrow>
               status (results resp ! i) = Some (js ''failed'') \<and>
               error (results resp ! i) \<noteq> None))))"
proof (cases "files = []")
  case True
  then show ?thesis by (simp add: analyze_def)
next
  case False
  let ?resp = "\<lparr>generatedAt = now, totalPapers = length (analyzeLoop env uuids files []),
                 results = analyzeLoop env uuids files []\<rparr>"
  from False have a: "analyze env now uuids files = Inr ?resp"
    by (simp add: analyze_def Let_def)
  have "\<forall>i<length files.
          results ?resp ! i = analyzeFile env (uuids i) (files ! i) \<and>
          originalName (results ?resp ! i) = originalname (files ! i) \<and>
          (extractionFails env (files ! i) \<longrightarrow>
             status (results ?resp ! i) = Some (js ''failed'') \<and>
             error (results ?resp ! i) \<noteq> None)"
    using analyzeFile_failed by (simp add: analyzeLoop_nth analyzeFile_originalName)
  moreover have "length (results ?resp) = length files" "totalPapers ?resp = length files"
    by (simp_all add: analyzeLoop_length)
  ultimately show ?thesis using a False by blast
qed

text \<open>A platform for examples: the session variant, where the parser reads the buffer
  \<open>%PDF\<close> as two pages with the text \<open>Hello\<close> and throws on anything else, and no model
  is configured.\<close>

definition demoPdf :: "8 word list" where
  "demoPdf = [0x25, 0x50, 0x44, 0x46]"

definition demoPlatform :: platform where
  "demoPlatform =
     \<lparr>variant = SessionVariant,
      getText = (\<lambda>b. if b = demoPdf
                      then Inr \<lparr>pdf_text = Some (js '' Hello ''), pdf_total = Some 2, pdf_pages_length = None\<rparr>
                      else Inl (Error (js ''Invalid PDF structure.''))),
      reviewModel = None,
      pathName = takeWhile (\<lambda>c. c \<noteq> 0x2E)\<rparr>"

definition demoFiles :: "uploaded_file list" where
  "demoFiles =
     [\<lparr>originalname = js ''a.pdf'', mimetype = js ''application/pdf'', buffer = demoPdf\<rparr>,
      \<lparr>originalname = js ''b.pdf'', mimetype = js ''application/pdf'', buffer = [0x00]\<rparr>,
      \<lparr>originalname = js ''c.pdf'', mimetype = js ''application/pdf'', buffer = demoPdf\<rparr>]"

definition demoUuids :: "nat \<Rightarrow> jsstring" where
  "demoUuids n = replicate (Suc n) 0x61"

lemma demo_statuses:
  "map (\<lambda>i. status (analyzeFile demoPlatform (demoUuids i) (demoFiles ! i))) [0..<3] =
     [None, Some (js ''failed''), None]"
  by code_simp

theorem analyze_per_file_witness:
  "\<exists>resp. analyze demoPlatform (js ''now'') demoUuids demoFiles = Inr resp \<and>
     length (results resp) = 3 \<and>
     map originalName (results resp) = [js ''a.pdf'', js ''b.pdf'', js ''c.pdf''] \<and>
     map status (results resp) = [None, Some (js ''failed''), None]"
proof -
  have ne: "demoFiles \<noteq> []" and len: "length demoFiles = 3"
    by (simp_all add: demoFiles_def)
  from analyze_per_file [of demoFiles demoPlatform "js ''now''" demoUuids] ne
  obtain resp where r: "analyze demoPlatform (js ''now'') demoUuids demoFiles = Inr resp"
    and l: "length (results resp) = length demoFiles"
    and n: "\<forall>i<length demoFiles.
            results resp ! i = analyzeFile demoPlatform (demoUuids i) (demoFiles ! i) \<and>
            originalName (results resp ! i) = originalname (demoFiles ! i) \<and>
            (extractionFails demoPlatform (demoFiles ! i) \<longrightarrow>
               status (results resp ! i) = Some (js ''failed'') \<and>
               error (results resp ! i) \<noteq> None)"
    by blast
  from l len have l3: "length (results resp) = 3" by simp
  from n l len have e: "results resp =
      map (\<lambda>i. analyzeFile demoPlatform (demoUuids i) (demoFiles ! i)) [0..<3]"
    by (auto intro: nth_equalityI)
  have "map originalName (results resp) = map originalname demoFiles"
  proof (rule nth_equalityI)
    show "length (map originalName (results resp)) = length (map originalname demoFiles)"
      using l by simp
  next
    fix i
    assume "i < length (map originalName (results resp))"
    with n l show "map originalName (results resp) ! i = map originalname demoFiles ! i"
      by (simp add: analyzeFile_originalName)
  qed
  then have o: "map originalName (results resp) = [js ''a.pdf'', js ''b.pdf'', js ''c.pdf'']"
    by (simp add: demoFiles_def)
  have s: "map status (results resp) = [None, Some (js ''failed''), None]"
    unfolding e map_map o_def by (rule demo_statuses)
  show ?thesis
  proof (intro exI conjI)
    show "analyze demoPlatform (js ''now'') demoUuids demoFiles = Inr resp" by (rule r)
    show "length (results resp) = 3" by (rule l3)
    show "map originalName (results resp) = [js ''a.pdf'', js ''b.pdf'', js ''c.pdf'']" by (rule o)
    show "map status (results resp) = [None, Some (js ''failed''), None]" by (rule s)
  qed
qed









text \<open>The SummaryObject of the round-trip example, as text and as value, and the example
  platform with a model that replies with that text.\<close>

definition summaryText :: jsstring where
  \<open>summaryText = js ''{"concise_summary":"x","key_points":["a"],"novelty":"n","limitations":"l","next_questions":["q"]}''\<close>

definition summaryValue :: json where
  "summaryValue =
     JObject [(js ''concise_summary'', JString (js ''x'')),
              (js ''key_points'', JArray [JString (js ''a'')]),
              (js ''novelty'', JString (js ''n'')),
              (js ''limitations'', JString (js ''l'')),
              (js ''next_questions'', JArray [JString (js ''q'')])]"







section \<open>What a text that \<open>JSON.parse\<close> accepts looks like\<close>

text \<open>A code unit that is neither white space nor a backtick. Every token starts and
  ends with one.\<close>

definition solid :: "jschar \<Rightarrow> bool" where
  "solid c \<longleftrightarrow> \<not> isSpace c \<and> c \<noteq> 0x60"

lemma isJsonWs_isSpace: "isJsonWs c \<Longrightarrow> isSpace c"
  by (auto simp: isJsonWs_def isSpace_def)

lemma isDigit_solid: "isDigit c \<Longrightarrow> solid c"
  unfolding isDigit_def solid_def isSpace_def
  by (auto simp: word_le_nat_alt)

lemma span_last: "takeWhile P xs \<noteq> [] \<Longrightarrow> \<exists>u d. xs = u @ d # dropWhile P xs \<and> P d"
proof -
  assume ne: "takeWhile P xs \<noteq> []"
  then have "last (takeWhile P xs) \<in> set (takeWhile P xs)" by simp
  then have p: "P (last (takeWhile P xs))" by (rule set_takeWhileD [THEN conjunct2])
  have "xs = takeWhile P xs @ dropWhile P xs" by simp
  also from ne have "takeWhile P xs = butlast (takeWhile P xs) @ [last (takeWhile P xs)]" by simp
  finally have "xs = butlast (takeWhile P xs) @ last (takeWhile P xs) # dropWhile P xs" by simp
  with p show ?thesis by blast
qed

text \<open>Each lexer consumes a non-empty prefix whose last code unit is solid.\<close>

lemma lex_string_suffix: "lex_string cs = Some (s, r) \<Longrightarrow> \<exists>u. cs = u @ 0x22 # r"
proof (induction cs arbitrary: s r rule: lex_string.induct)
  case 1
  then show ?case by simp
next
  case (2 c cs)
  show ?case
  proof (cases "c = 0x22")
    case True
    with "2.prems" show ?thesis by simp
  next
    case quote: False
    show ?thesis
    proof (cases "c = 0x5C")
      case False
      with quote "2.prems" obtain s' where "lex_string cs = Some (s', r)"
        by (auto split: if_splits)
      from "2.IH"(1) [OF quote _ False this] "2.prems" quote False
      obtain u where "cs = u @ 0x22 # r" by (auto split: if_splits)
      then have "c # cs = (c # u) @ 0x22 # r" by simp
      then show ?thesis by blast
    next
      case True
      with quote "2.prems" "2.IH"(2,3) show ?thesis
        apply (auto split: if_splits list.splits option.splits)
         apply (metis append_Cons)+
        done
    qed
  qed
qed

lemma lex_sign_suffix: "lex_sign s = (neg, r) \<Longrightarrow> r = s \<or> s = 0x2D # r"
  by (auto simp: lex_sign_def split: list.splits if_splits)

lemma lex_int_suffix: "lex_int s = Some (ip, r) \<Longrightarrow> \<exists>u d. s = u @ d # r \<and> isDigit d"
proof -
  assume a: "lex_int s = Some (ip, r)"
  then obtain c t where s: "s = c # t" by (cases s) (auto simp: lex_int_def)
  show ?thesis
  proof (cases "c = 0x30")
    case True
    with a s have "s = [] @ c # r" "isDigit c" by (auto simp: lex_int_def isDigit_def)
    then show ?thesis by blast
  next
    case False
    with a s have d: "isDigit c" and r: "r = dropWhile isDigit s"
      by (auto simp: lex_int_def split: if_splits)
    from d s have "takeWhile isDigit s \<noteq> []" by simp
    from span_last [OF this] r show ?thesis by simp
  qed
qed

lemma lex_frac_suffix:
  "lex_frac s = Some (fd, r) \<Longrightarrow> r = s \<or> (\<exists>u d. s = u @ d # r \<and> isDigit d)"
proof -
  assume a: "lex_frac s = Some (fd, r)"
  show ?thesis
  proof (cases "r = s")
    case True
    then show ?thesis by simp
  next
    case False
    with a obtain t where s: "s = 0x2E # t" and ne: "takeWhile isDigit t \<noteq> []"
      and r: "r = dropWhile isDigit t"
      by (auto simp: lex_frac_def split: list.splits if_splits)
    from span_last [OF ne] r obtain u d where "t = u @ d # r" "isDigit d" by auto
    with s have "s = (0x2E # u) @ d # r" by simp
    with \<open>isDigit d\<close> show ?thesis by blast
  qed
qed

lemma lex_exp_sign_suffix: "lex_exp_sign s = (neg, r) \<Longrightarrow> \<exists>p. s = p @ r"
  by (auto simp: lex_exp_sign_def split: list.splits if_splits)

lemma lex_exp_suffix:
  "lex_exp s = Some (e, r) \<Longrightarrow> r = s \<or> (\<exists>u d. s = u @ d # r \<and> isDigit d)"
proof -
  assume a: "lex_exp s = Some (e, r)"
  show ?thesis
  proof (cases "r = s")
    case True
    then show ?thesis by simp
  next
    case False
    with a obtain c t where s: "s = c # t" by (cases s) (auto simp: lex_exp_def)
    obtain neg t' where sg: "lex_exp_sign t = (neg, t')" by (cases "lex_exp_sign t")
    from lex_exp_sign_suffix [OF sg] obtain p where p: "t = p @ t'" by blast
    from a s sg False have ne: "takeWhile isDigit t' \<noteq> []" and r: "r = dropWhile isDigit t'"
      by (auto simp: lex_exp_def split: if_splits)
    from span_last [OF ne] r obtain u d where "t' = u @ d # r" "isDigit d" by auto
    with s p have "s = (c # p @ u) @ d # r" by simp
    with \<open>isDigit d\<close> show ?thesis by blast
  qed
qed

lemma lex_number_suffix: "lex_number s = Some (n, r) \<Longrightarrow> \<exists>u d. s = u @ d # r \<and> isDigit d"
proof -
  assume a: "lex_number s = Some (n, r)"
  obtain neg s1 where sg: "lex_sign s = (neg, s1)" by (cases "lex_sign s")
  from a sg obtain ip s2 where i: "lex_int s1 = Some (ip, s2)"
    by (auto simp: lex_number_def split: option.splits)
  from a sg i obtain fd s3 where f: "lex_frac s2 = Some (fd, s3)"
    by (auto simp: lex_number_def split: option.splits)
  from a sg i f obtain e where x: "lex_exp s3 = Some (e, r)"
    by (auto simp: lex_number_def split: option.splits)
  from lex_sign_suffix [OF sg] obtain p where p: "s = p @ s1" by auto
  from lex_int_suffix [OF i] obtain u1 d1 where 1: "s1 = u1 @ d1 # s2" "isDigit d1" by blast
  have 2: "\<exists>u d. s1 = u @ d # s3 \<and> isDigit d"
  proof (cases "s3 = s2")
    case True
    with 1 show ?thesis by blast
  next
    case False
    with lex_frac_suffix [OF f] obtain u2 d2 where "s2 = u2 @ d2 # s3" "isDigit d2" by blast
    with 1 have "s1 = (u1 @ d1 # u2) @ d2 # s3" by simp
    with \<open>isDigit d2\<close> show ?thesis by blast
  qed
  have 3: "\<exists>u d. s1 = u @ d # r \<and> isDigit d"
  proof (cases "r = s3")
    case True
    with 2 show ?thesis by simp
  next
    case False
    with lex_exp_suffix [OF x] obtain u3 d3 where 4: "s3 = u3 @ d3 # r" "isDigit d3" by blast
    from 2 obtain u d where "s1 = u @ d # s3" by blast
    with 4 have "s1 = (u @ d # u3) @ d3 # r" by simp
    with \<open>isDigit d3\<close> show ?thesis by blast
  qed
  then obtain u d where "s1 = u @ d # r" "isDigit d" by blast
  with p have "s = (p @ u) @ d # r" by simp
  with \<open>isDigit d\<close> show ?thesis by blast
qed

lemma lex_literal_suffix:
  "lex_literal s = Some (t, r) \<Longrightarrow>
   \<exists>c u d. s = c # u @ d # r \<and> solid c \<and> solid d \<and> t \<noteq> TRBrace"
proof -
  assume a: "lex_literal s = Some (t, r)"
  have sol: "solid 0x74" "solid 0x66" "solid 0x6E" "solid 0x65" "solid 0x6C"
    by (simp_all add: solid_def isSpace_def)
  consider (T) "take 4 s = js ''true''" "t = TTrue" "r = drop 4 s"
    | (F) "take 5 s = js ''false''" "t = TFalse" "r = drop 5 s"
    | (N) "take 4 s = js ''null''" "t = TNull" "r = drop 4 s"
    using a by (auto simp: lex_literal_def split: if_splits)
  then show ?thesis
  proof cases
    case T
    have "s = take 4 s @ drop 4 s" by simp
    with T have "s = 0x74 # [0x72, 0x75] @ 0x65 # r" by (simp add: js_def)
    with sol T show ?thesis by blast
  next
    case F
    have "s = take 5 s @ drop 5 s" by simp
    with F have "s = 0x66 # [0x61, 0x6C, 0x73] @ 0x65 # r" by (simp add: js_def)
    with sol F show ?thesis by blast
  next
    case N
    have "s = take 4 s @ drop 4 s" by simp
    with N have "s = 0x6E # [0x75, 0x6C] @ 0x6C # r" by (simp add: js_def)
    with sol N show ?thesis by blast
  qed
qed


text \<open>One step of the tokenizer at a code unit that is not white space.\<close>

lemma tokenize_punct:
  assumes "tokenize (c # cs) = Some ts"
    and "c = 0x7B \<or> c = 0x7D \<or> c = 0x5B \<or> c = 0x5D \<or> c = 0x3A \<or> c = 0x2C"
  shows "\<exists>t ts'. tokenize cs = Some ts' \<and> ts = t # ts' \<and> (t = TRBrace \<longrightarrow> c = 0x7D)"
  using assms(2)
proof (elim disjE)
  assume "c = 0x7B"
  with assms(1) show ?thesis by (auto simp: isJsonWs_def)
next
  assume "c = 0x7D"
  with assms(1) show ?thesis by (auto simp: isJsonWs_def)
next
  assume "c = 0x5B"
  with assms(1) show ?thesis by (auto simp: isJsonWs_def)
next
  assume "c = 0x5D"
  with assms(1) show ?thesis by (auto simp: isJsonWs_def)
next
  assume "c = 0x3A"
  with assms(1) show ?thesis by (auto simp: isJsonWs_def)
next
  assume "c = 0x2C"
  with assms(1) show ?thesis by (auto simp: isJsonWs_def)
qed

lemma tokenize_step:
  assumes "tokenize (c # cs) = Some ts" and "\<not> isJsonWs c"
  shows "\<exists>u d r t ts'. c # cs = u @ d # r \<and> solid c \<and> solid d \<and>
           tokenize r = Some ts' \<and> ts = t # ts' \<and> (t = TRBrace \<longrightarrow> c = 0x7D)"
proof -
  have sol: "solid 0x7B" "solid 0x7D" "solid 0x5B" "solid 0x5D" "solid 0x3A" "solid 0x2C"
    "solid 0x22" "solid 0x2D"
    by (simp_all add: solid_def isSpace_def)
  consider (punct) "c = 0x7B \<or> c = 0x7D \<or> c = 0x5B \<or> c = 0x5D \<or> c = 0x3A \<or> c = 0x2C"
    | (str) "c = 0x22"
    | (num) "c \<noteq> 0x7B" "c \<noteq> 0x7D" "c \<noteq> 0x5B" "c \<noteq> 0x5D" "c \<noteq> 0x3A" "c \<noteq> 0x2C" "c \<noteq> 0x22"
        "c = 0x2D \<or> isDigit c"
    | (lit) "c \<noteq> 0x7B" "c \<noteq> 0x7D" "c \<noteq> 0x5B" "c \<noteq> 0x5D" "c \<noteq> 0x3A" "c \<noteq> 0x2C" "c \<noteq> 0x22"
        "\<not> (c = 0x2D \<or> isDigit c)"
    by blast
  then show ?thesis
  proof cases
    case punct
    from tokenize_punct [OF assms(1) punct] obtain t ts' where
      t: "tokenize cs = Some ts'" "ts = t # ts'" "t = TRBrace \<longrightarrow> c = 0x7D" by blast
    from punct sol have c: "solid c" by blast
    have "c # cs = [] @ c # cs" by simp
    with t c show ?thesis by blast
  next
    case str
    with assms obtain s r ts' where l: "lex_string cs = Some (s, r)"
      and t: "tokenize r = Some ts'" and ts: "ts = TString s # ts'"
      by (auto split: option.splits)
    from lex_string_suffix [OF l] obtain u where "cs = u @ 0x22 # r" by blast
    then have "c # cs = (c # u) @ 0x22 # r" by simp
    with str t ts sol(7) show ?thesis by blast
  next
    case num
    with assms obtain n r ts' where l: "lex_number (c # cs) = Some (n, r)"
      and t: "tokenize r = Some ts'" and ts: "ts = TNumber n # ts'"
      by (auto split: option.splits)
    from lex_number_suffix [OF l] obtain u d where u: "c # cs = u @ d # r" and d: "isDigit d"
      by blast
    from num sol(8) have "solid c" by (auto intro: isDigit_solid)
    with u d t ts show ?thesis by (blast intro: isDigit_solid)
  next
    case lit
    with assms obtain t r ts' where l: "lex_literal (c # cs) = Some (t, r)"
      and tk: "tokenize r = Some ts'" and ts: "ts = t # ts'"
      by (auto split: option.splits)
    from lex_literal_suffix [OF l] obtain u d where "c # cs = c # u @ d # r" "solid c" "solid d"
      "t \<noteq> TRBrace" by auto
    moreover from this have "c # cs = (c # u) @ d # r" by simp
    ultimately show ?thesis using tk ts by blast
  qed
qed

lemma tokenize_Nil_ws: "tokenize s = Some [] \<Longrightarrow> \<forall>x\<in>set s. isJsonWs x"
proof (induction s)
  case Nil
  then show ?case by simp
next
  case (Cons c cs)
  show ?case
  proof (cases "isJsonWs c")
    case True
    with Cons show ?thesis by simp
  next
    case False
    from tokenize_step [OF Cons.prems False] show ?thesis by auto
  qed
qed

lemma tokenize_first:
  "tokenize s = Some ts \<Longrightarrow> ts \<noteq> [] \<Longrightarrow> \<exists>c r. dropWhile isSpace s = c # r \<and> solid c"
proof (induction s)
  case Nil
  then show ?case by simp
next
  case (Cons c cs)
  show ?case
  proof (cases "isJsonWs c")
    case True
    with Cons show ?thesis by (simp add: isJsonWs_isSpace)
  next
    case False
    from tokenize_step [OF Cons.prems(1) False] have "solid c" by blast
    then show ?thesis by (simp add: solid_def)
  qed
qed

lemma tokenize_rbrace:
  "tokenize s = Some ts \<Longrightarrow> TRBrace \<in> set ts \<Longrightarrow> 0x7D \<in> set s"
proof (induction s arbitrary: ts rule: length_induct)
  case (1 s)
  note IH = "1.IH" [rule_format]
  show ?case
  proof (cases s)
    case Nil
    with "1.prems" show ?thesis by simp
  next
    case (Cons c cs)
    show ?thesis
    proof (cases "isJsonWs c")
      case True
      with "1.prems" Cons have tk: "tokenize cs = Some ts" by simp
      from Cons have "length cs < length s" by simp
      from IH [OF this tk "1.prems"(2)] Cons show ?thesis by simp
    next
      case False
      from "1.prems"(1) Cons have "tokenize (c # cs) = Some ts" by simp
      from tokenize_step [OF this False] obtain u d r t ts' where
        s: "c # cs = u @ d # r" and tk: "tokenize r = Some ts'" and ts: "ts = t # ts'"
        and t: "t = TRBrace \<longrightarrow> c = 0x7D" by blast
      show ?thesis
      proof (cases "t = TRBrace")
        case True
        with t Cons show ?thesis by simp
      next
        case ne: False
        with ts "1.prems"(2) have m: "TRBrace \<in> set ts'" by simp
        from s have "length (c # cs) = length (u @ d # r)" by simp
        with Cons have "length r < length s" by simp
        from IH [OF this tk m] have "0x7D \<in> set (u @ d # r)" by simp
        with s Cons show ?thesis by simp
      qed
    qed
  qed
qed

text \<open>An object is only ever completed by a closing brace.\<close>

lemma parse_object_rbrace:
  "expect_value st ts = Some (JObject ms) \<Longrightarrow> TRBrace \<in> set ts"
  "after_value st' v ts' = Some (JObject ms) \<Longrightarrow>
     TRBrace \<in> set ts' \<or> (st' = [] \<and> ts' = [] \<and> v = JObject ms)"
  "expect_key ps st'' ts'' = Some (JObject ms) \<Longrightarrow> TRBrace \<in> set ts''"
proof (induction st ts and st' v ts' and ps st'' ts'' rule: expect_value_after_value_expect_key.induct)
  case (1 st)
  then show ?case by simp
next
  case (2 st t ts)
  show ?case
  proof (cases t)
    case TLBrace
    show ?thesis
    proof (cases ts)
      case Nil
      with 2 TLBrace show ?thesis by simp
    next
      case (Cons x xs)
      with 2 TLBrace show ?thesis by (cases x) simp_all
    qed
  next
    case TLBracket
    show ?thesis
    proof (cases ts)
      case Nil
      with 2 TLBracket show ?thesis by simp
    next
      case (Cons x xs)
      with 2 TLBracket show ?thesis by (cases x) auto
    qed
  qed (use 2 in auto)
next
  case (3 v ts)
  then show ?case by (auto split: if_splits)
next
  case (4 f st v)
  then show ?case by simp
next
  case (5 f st v t ts)
  then show ?case
    by (cases f; cases t) auto
next
  case (6 ms st)
  then show ?case by simp
next
  case (7 ms st t ts)
  show ?case
  proof (cases t)
    case (TString k)
    show ?thesis
    proof (cases ts)
      case Nil
      with 7 TString show ?thesis by simp
    next
      case (Cons x xs)
      with 7 TString show ?thesis by (cases x) auto
    qed
  qed (use 7 in auto)
qed

subsection \<open>White space around a text\<close>

text \<open>White space that JSON allows between tokens. Each lexer reads a text followed by
  such white space as it reads the text alone, and so does the tokenizer.\<close>

definition allWs :: "jsstring \<Rightarrow> bool" where
  "allWs w \<longleftrightarrow> list_all isJsonWs w"

lemma ws_facts:
  assumes "isJsonWs c"
  shows "c \<noteq> 0x22" "c \<noteq> 0x5C" "c \<noteq> 0x75" "unescape c = None" "hexval c = None"
    "\<not> isDigit c" "c \<noteq> 0x2D" "c \<noteq> 0x2B" "c \<noteq> 0x2E" "c \<noteq> 0x65" "c \<noteq> 0x45" "c \<noteq> 0x30"
  using assms
  by (auto simp: isJsonWs_def unescape_def hexval_def isDigit_def)

lemma lex_string_unicode:
  "lex_string (0x5C # 0x75 # r) =
     (case unicodeEscape r of
        None \<Rightarrow> None
      | Some (u, r') \<Rightarrow> map_option (apfst ((#) u)) (lex_string r'))"
  by (auto simp: unicodeEscape_def split: list.splits option.splits)

lemma unicodeEscape_Some:
  "unicodeEscape x = Some (u, r') \<Longrightarrow>
   4 \<le> length x \<and> (\<forall>h\<in>set (take 4 x). hexval h \<noteq> None) \<and> r' = drop 4 x"
  by (auto simp: unicodeEscape_def split: list.splits option.splits)

lemma unicodeEscape_long:
  "4 \<le> length r \<Longrightarrow> unicodeEscape (r @ w) = map_option (apsnd (\<lambda>x. x @ w)) (unicodeEscape r)"
  by (auto simp: unicodeEscape_def split: list.splits option.splits)

lemma unicodeEscape_short:
  assumes w: "allWs w" and l: "length r < 4"
  shows "unicodeEscape (r @ w) = None"
proof (cases "unicodeEscape (r @ w)")
  case None
  then show ?thesis .
next
  case (Some p)
  obtain u r' where "p = (u, r')" by (cases p)
  with Some unicodeEscape_Some [of "r @ w" u r'] have len: "4 \<le> length (r @ w)"
    and hex: "\<forall>h\<in>set (take 4 (r @ w)). hexval h \<noteq> None" by simp_all
  from len l obtain a w' where aw: "w = a # w'" by (cases w) auto
  with l have "a \<in> set (take 4 (r @ w))" by (cases "4 - length r") auto
  with hex have "hexval a \<noteq> None" by blast
  moreover from w aw have "isJsonWs a" by (simp add: allWs_def)
  ultimately show ?thesis by (simp add: ws_facts)
qed

lemma unicodeEscape_append:
  "allWs w \<Longrightarrow> unicodeEscape (r @ w) = map_option (apsnd (\<lambda>x. x @ w)) (unicodeEscape r)"
proof (cases "4 \<le> length r")
  case True
  then show ?thesis by (rule unicodeEscape_long)
next
  case False
  assume w: "allWs w"
  from False have l: "length r < 4" by simp
  have "unicodeEscape r = None"
    using l by (auto simp: unicodeEscape_def split: list.splits option.splits)
  with unicodeEscape_short [OF w l] show ?thesis by simp
qed

lemma lex_string_ws: "allWs w \<Longrightarrow> lex_string w = None"
  by (induction w) (auto simp: isJsonWs_def allWs_def)

lemma lex_string_append:
  "allWs w \<Longrightarrow> lex_string (cs @ w) = map_option (apsnd (\<lambda>r. r @ w)) (lex_string cs)"
proof (induction cs rule: length_induct)
  case (1 cs)
  note IH = "1.IH" [rule_format, OF _ "1.prems"]
  note w = "1.prems"
  show ?case
  proof (cases cs)
    case Nil
    with lex_string_ws [OF w] show ?thesis by simp
  next
    case (Cons c t)
    have t: "lex_string (t @ w) = map_option (apsnd (\<lambda>r. r @ w)) (lex_string t)"
      using Cons by (intro IH) simp
    show ?thesis
    proof (cases "c = 0x5C")
      case False
      with Cons t show ?thesis by (simp add: option.map_comp comp_def apfst_def apsnd_def map_prod_def split_def)
    next
      case bs: True
      show ?thesis
      proof (cases t)
        case Nil
        show ?thesis
        proof (cases w)
          case Nil
          with Cons \<open>t = []\<close> show ?thesis by simp
        next
          case (Cons a w')
          with w have "isJsonWs a" by (simp add: allWs_def)
          with Cons \<open>cs = c # t\<close> \<open>t = []\<close> bs show ?thesis by (simp add: ws_facts)
        qed
      next
        case (Cons e r)
        show ?thesis
        proof (cases "e = 0x75")
          case True
          show ?thesis
          proof (cases "unicodeEscape r")
            case None
            with unicodeEscape_append [OF w, of r] \<open>cs = c # t\<close> Cons bs True show ?thesis
              by (simp add: lex_string_unicode del: lex_string.simps)
          next
            case (Some p)
            obtain u r' where p: "p = (u, r')" by (cases p)
            from Some p unicodeEscape_Some [of r u r'] have "r' = drop 4 r" by simp
            with \<open>cs = c # t\<close> Cons have "length r' < length cs" by simp
            from IH [OF this] have "lex_string (r' @ w) = map_option (apsnd (\<lambda>r. r @ w)) (lex_string r')" .
            with unicodeEscape_append [OF w, of r] Some p \<open>cs = c # t\<close> Cons bs True show ?thesis
              by (simp add: lex_string_unicode option.map_comp comp_def apfst_def apsnd_def map_prod_def split_def del: lex_string.simps)
          qed
        next
          case False
          have "lex_string (r @ w) = map_option (apsnd (\<lambda>r. r @ w)) (lex_string r)"
            using Cons \<open>cs = c # t\<close> by (intro IH) simp
          with \<open>cs = c # t\<close> Cons bs False show ?thesis
            by (simp add: option.map_comp comp_def apfst_def apsnd_def map_prod_def split_def split: option.splits)
        qed
      qed
    qed
  qed
qed

lemma takeWhile_isDigit_ws: "allWs w \<Longrightarrow> takeWhile isDigit w = []"
  by (cases w) (simp_all add: allWs_def ws_facts)

lemma dropWhile_isDigit_ws: "allWs w \<Longrightarrow> dropWhile isDigit w = w"
  by (cases w) (simp_all add: allWs_def ws_facts)

lemma takeWhile_isDigit_append: "allWs w \<Longrightarrow> takeWhile isDigit (s @ w) = takeWhile isDigit s"
  by (induction s) (simp_all add: takeWhile_isDigit_ws)

lemma dropWhile_isDigit_append:
  "allWs w \<Longrightarrow> dropWhile isDigit (s @ w) = dropWhile isDigit s @ w"
  by (induction s) (simp_all add: dropWhile_isDigit_ws)

lemma lex_sign_append: "allWs w \<Longrightarrow> lex_sign (s @ w) = apsnd (\<lambda>r. r @ w) (lex_sign s)"
  by (cases s; cases w) (simp_all add: lex_sign_def allWs_def ws_facts)

lemma lex_int_append:
  "allWs w \<Longrightarrow> lex_int (s @ w) = map_option (apsnd (\<lambda>r. r @ w)) (lex_int s)"
proof (cases s)
  case Nil
  assume "allWs w"
  with Nil show ?thesis by (cases w) (simp_all add: lex_int_def allWs_def ws_facts)
next
  case (Cons c r)
  assume w: "allWs w"
  from Cons show ?thesis
    by (simp add: lex_int_def takeWhile_isDigit_append [OF w] dropWhile_isDigit_append [OF w])
qed

lemma lex_frac_append:
  "allWs w \<Longrightarrow> lex_frac (s @ w) = map_option (apsnd (\<lambda>r. r @ w)) (lex_frac s)"
proof (cases s)
  case Nil
  assume "allWs w"
  with Nil show ?thesis by (cases w) (simp_all add: lex_frac_def allWs_def ws_facts)
next
  case (Cons c r)
  assume w: "allWs w"
  from Cons show ?thesis
    by (simp add: lex_frac_def takeWhile_isDigit_append [OF w] dropWhile_isDigit_append [OF w])
qed

lemma lex_exp_sign_append:
  "allWs w \<Longrightarrow> lex_exp_sign (s @ w) = apsnd (\<lambda>r. r @ w) (lex_exp_sign s)"
  by (cases s; cases w) (simp_all add: lex_exp_sign_def allWs_def ws_facts)

lemma lex_exp_append:
  "allWs w \<Longrightarrow> lex_exp (s @ w) = map_option (apsnd (\<lambda>r. r @ w)) (lex_exp s)"
proof (cases s)
  case Nil
  assume "allWs w"
  with Nil show ?thesis by (cases w) (simp_all add: lex_exp_def allWs_def ws_facts)
next
  case (Cons c r)
  assume w: "allWs w"
  obtain neg r' where sg: "lex_exp_sign r = (neg, r')" by (cases "lex_exp_sign r")
  with lex_exp_sign_append [OF w, of r] have sg': "lex_exp_sign (r @ w) = (neg, r' @ w)" by simp
  from Cons sg sg' show ?thesis
    by (simp add: lex_exp_def takeWhile_isDigit_append [OF w] dropWhile_isDigit_append [OF w])
qed

lemma lex_number_append:
  assumes w: "allWs w"
  shows "lex_number (s @ w) = map_option (apsnd (\<lambda>r. r @ w)) (lex_number s)"
proof -
  obtain neg s1 where sg: "lex_sign s = (neg, s1)" by (cases "lex_sign s")
  with lex_sign_append [OF w, of s] have sg': "lex_sign (s @ w) = (neg, s1 @ w)" by simp
  show ?thesis
  proof (cases "lex_int s1")
    case None
    with lex_int_append [OF w, of s1] sg sg' show ?thesis by (simp add: lex_number_def)
  next
    case (Some p)
    obtain ip s2 where p: "p = (ip, s2)" by (cases p)
    with Some lex_int_append [OF w, of s1] have i': "lex_int (s1 @ w) = Some (ip, s2 @ w)" by simp
    show ?thesis
    proof (cases "lex_frac s2")
      case None
      with lex_frac_append [OF w, of s2] sg sg' Some p i' show ?thesis
        by (simp add: lex_number_def)
    next
      case f: (Some q)
      obtain fd s3 where q: "q = (fd, s3)" by (cases q)
      with f lex_frac_append [OF w, of s2] have f': "lex_frac (s2 @ w) = Some (fd, s3 @ w)" by simp
      show ?thesis
      proof (cases "lex_exp s3")
        case None
        with lex_exp_append [OF w, of s3] sg sg' Some p i' f q f' show ?thesis
          by (simp add: lex_number_def)
      next
        case x: (Some y)
        obtain e s4 where y: "y = (e, s4)" by (cases y)
        with x lex_exp_append [OF w, of s3] have "lex_exp (s3 @ w) = Some (e, s4 @ w)" by simp
        with sg sg' Some p i' f q f' x y show ?thesis
          by (simp add: lex_number_def)
      qed
    qed
  qed
qed

lemma take_literal_append:
  assumes w: "allWs w" and l: "\<forall>x\<in>set lit. \<not> isJsonWs x" and n: "length lit = n"
  shows "take n (s @ w) = lit \<longleftrightarrow> take n s = lit"
proof (cases "n \<le> length s")
  case True
  then show ?thesis by simp
next
  case False
  then have short: "length s < n" by simp
  have ne: "take n s \<noteq> lit"
  proof
    assume "take n s = lit"
    then have "length (take n s) = length lit" by simp
    with short n show False by simp
  qed
  have "take n (s @ w) \<noteq> lit"
  proof
    assume e: "take n (s @ w) = lit"
    then have "length (take n (s @ w)) = length lit" by simp
    with short n have lw: "n - length s \<le> length w" by simp
    from short lw obtain a w' where aw: "w = a # w'" by (cases w) auto
    from short have "a \<in> set (take (n - length s) (a # w'))"
      by (cases "n - length s") auto
    with aw have "a \<in> set (take n (s @ w))" by simp
    with e have "a \<in> set lit" by simp
    with l have "\<not> isJsonWs a" by blast
    with w aw show False by (simp add: allWs_def)
  qed
  with ne show ?thesis by simp
qed

lemma lex_literal_append:
  assumes w: "allWs w"
  shows "lex_literal (s @ w) = map_option (apsnd (\<lambda>r. r @ w)) (lex_literal s)"
proof -
  have t: "take 4 (s @ w) = js ''true'' \<longleftrightarrow> take 4 s = js ''true''"
    by (rule take_literal_append [OF w]) (simp_all add: js_def isJsonWs_def)
  have f: "take 5 (s @ w) = js ''false'' \<longleftrightarrow> take 5 s = js ''false''"
    by (rule take_literal_append [OF w]) (simp_all add: js_def isJsonWs_def)
  have n: "take 4 (s @ w) = js ''null'' \<longleftrightarrow> take 4 s = js ''null''"
    by (rule take_literal_append [OF w]) (simp_all add: js_def isJsonWs_def)
  have l4: "take 4 s = js ''true'' \<Longrightarrow> drop 4 (s @ w) = drop 4 s @ w"
    "take 4 s = js ''null'' \<Longrightarrow> drop 4 (s @ w) = drop 4 s @ w"
    by (auto simp: js_def dest: arg_cong [where f = length])
  have l5: "take 5 s = js ''false'' \<Longrightarrow> drop 5 (s @ w) = drop 5 s @ w"
    by (auto simp: js_def dest: arg_cong [where f = length])
  show ?thesis
    unfolding lex_literal_def t f n using l4 l5 by (auto simp del: take_append drop_append)
qed

lemma tokenize_ws: "allWs w \<Longrightarrow> tokenize w = Some []"
  by (induction w) (simp_all add: allWs_def)

lemma tokenize_append: "allWs w \<Longrightarrow> tokenize (s @ w) = tokenize s"
proof (induction s rule: length_induct)
  case (1 s)
  note w = "1.prems"
  note IH = "1.IH" [rule_format, OF _ w]
  show ?case
  proof (cases s)
    case Nil
    with tokenize_ws [OF w] show ?thesis by simp
  next
    case (Cons c cs)
    have cs: "tokenize (cs @ w) = tokenize cs" using Cons by (intro IH) simp
    have str: "(case lex_string (cs @ w) of None \<Rightarrow> None
                | Some (s, r) \<Rightarrow> map_option ((#) (TString s)) (tokenize r)) =
               (case lex_string cs of None \<Rightarrow> None
                | Some (s, r) \<Rightarrow> map_option ((#) (TString s)) (tokenize r))"
    proof (cases "lex_string cs")
      case None
      with lex_string_append [OF w, of cs] show ?thesis by simp
    next
      case (Some p)
      obtain x r where p: "p = (x, r)" by (cases p)
      from Some p lex_string_shorter [of cs x r] Cons have "length r < length s" by simp
      from IH [OF this] Some p lex_string_append [OF w, of cs] show ?thesis by simp
    qed
    have num: "(case lex_number ((c # cs) @ w) of None \<Rightarrow> None
                | Some (n, r) \<Rightarrow> map_option ((#) (TNumber n)) (tokenize r)) =
               (case lex_number (c # cs) of None \<Rightarrow> None
                | Some (n, r) \<Rightarrow> map_option ((#) (TNumber n)) (tokenize r))"
    proof (cases "lex_number (c # cs)")
      case None
      with lex_number_append [OF w, of "c # cs"] show ?thesis by simp
    next
      case (Some p)
      obtain x r where p: "p = (x, r)" by (cases p)
      from Some p lex_number_shorter [of "c # cs" x r] Cons have "length r < length s" by simp
      from IH [OF this] Some p lex_number_append [OF w, of "c # cs"] show ?thesis by simp
    qed
    have lit: "(case lex_literal ((c # cs) @ w) of None \<Rightarrow> None
                | Some (t, r) \<Rightarrow> map_option ((#) t) (tokenize r)) =
               (case lex_literal (c # cs) of None \<Rightarrow> None
                | Some (t, r) \<Rightarrow> map_option ((#) t) (tokenize r))"
    proof (cases "lex_literal (c # cs)")
      case None
      with lex_literal_append [OF w, of "c # cs"] show ?thesis by simp
    next
      case (Some p)
      obtain x r where p: "p = (x, r)" by (cases p)
      from Some p lex_literal_shorter [of "c # cs" x r] Cons have "length r < length s" by simp
      from IH [OF this] Some p lex_literal_append [OF w, of "c # cs"] show ?thesis by simp
    qed
    from num lit have num': "(case lex_number (c # cs @ w) of None \<Rightarrow> None
                | Some (n, r) \<Rightarrow> map_option ((#) (TNumber n)) (tokenize r)) =
               (case lex_number (c # cs) of None \<Rightarrow> None
                | Some (n, r) \<Rightarrow> map_option ((#) (TNumber n)) (tokenize r))"
      and lit': "(case lex_literal (c # cs @ w) of None \<Rightarrow> None
                | Some (t, r) \<Rightarrow> map_option ((#) t) (tokenize r)) =
               (case lex_literal (c # cs) of None \<Rightarrow> None
                | Some (t, r) \<Rightarrow> map_option ((#) t) (tokenize r))"
      by simp_all
    show ?thesis unfolding Cons append_Cons tokenize.simps cs str num' lit' ..
  qed
qed

lemma tokenize_prepend: "allWs w \<Longrightarrow> tokenize (w @ s) = tokenize s"
  by (induction w) (simp_all add: allWs_def)

text \<open>A text that the tokenizer accepts has only JSON white space before its first and
  after its last token.\<close>

lemma tokenize_leading: "tokenize s = Some ts \<Longrightarrow> allWs (takeWhile isSpace s)"
proof (induction s)
  case Nil
  then show ?case by (simp add: allWs_def)
next
  case (Cons c cs)
  show ?case
  proof (cases "isJsonWs c")
    case True
    with Cons show ?thesis by (simp add: allWs_def isJsonWs_isSpace)
  next
    case False
    from tokenize_step [OF Cons.prems False] have "solid c" by blast
    then show ?thesis by (simp add: solid_def allWs_def)
  qed
qed

lemma tokenize_trailing:
  "tokenize s = Some ts \<Longrightarrow> ts \<noteq> [] \<Longrightarrow> \<exists>u c w. s = u @ c # w \<and> solid c \<and> allWs w"
proof (induction s arbitrary: ts rule: length_induct)
  case (1 s)
  note IH = "1.IH" [rule_format]
  show ?case
  proof (cases s)
    case Nil
    with "1.prems" show ?thesis by simp
  next
    case (Cons c cs)
    show ?thesis
    proof (cases "isJsonWs c")
      case True
      with "1.prems" Cons have tk: "tokenize cs = Some ts" by simp
      from Cons have "length cs < length s" by simp
      from IH [OF this tk "1.prems"(2)] obtain u d w where "cs = u @ d # w" "solid d"
        "allWs w" by blast
      with Cons have "s = (c # u) @ d # w" by simp
      with \<open>solid d\<close> \<open>allWs w\<close> show ?thesis by blast
    next
      case False
      from "1.prems"(1) Cons have "tokenize (c # cs) = Some ts" by simp
      from tokenize_step [OF this False] obtain u d r t ts' where
        s: "c # cs = u @ d # r" and d: "solid d" and tk: "tokenize r = Some ts'" by blast
      show ?thesis
      proof (cases "ts' = []")
        case True
        with tk have "\<forall>x\<in>set r. isJsonWs x" by (simp add: tokenize_Nil_ws)
        then have "allWs r" by (simp add: allWs_def list_all_iff)
        with s d Cons show ?thesis by blast
      next
        case ne: False
        from s have "length (c # cs) = length (u @ d # r)" by simp
        with Cons have "length r < length s" by simp
        from IH [OF this tk ne] obtain u' d' w where r: "r = u' @ d' # w" and d': "solid d'"
          and w: "allWs w" by blast
        from s Cons r have "s = (u @ d # u') @ d' # w" by simp
        with d' w show ?thesis by blast
      qed
    qed
  qed
qed

lemma allWs_isSpace: "allWs w \<Longrightarrow> \<forall>x\<in>set w. isSpace x"
  by (simp add: allWs_def list_all_iff isJsonWs_isSpace)

section \<open>Fences around a valid JSON text\<close>

lemma trimEnd_spaces:
  "\<forall>x\<in>set w. isSpace x \<Longrightarrow> \<not> isSpace d \<Longrightarrow> trimEnd (u @ d # w) = u @ [d]"
proof -
  assume w: "\<forall>x\<in>set w. isSpace x" and d: "\<not> isSpace d"
  have "dropWhile isSpace (rev w @ d # rev u) = d # rev u"
    using w d by (simp add: dropWhile_append)
  then show ?thesis by (simp add: trimEnd_def)
qed

lemma set_trim: "set (trim s) \<subseteq> set s"
proof -
  have "set (trim s) = set (dropWhile isSpace (rev (dropWhile isSpace s)))"
    by (simp add: trim_def trimEnd_def trimStart_def)
  also have "\<dots> \<subseteq> set (rev (dropWhile isSpace s))" by (rule set_dropWhileD [THEN subsetI])
  also have "\<dots> \<subseteq> set s" by (auto dest: set_dropWhileD)
  finally show ?thesis .
qed

text \<open>A text with a first and a last solid character.\<close>

lemma trim_solid:
  assumes first: "dropWhile isSpace j = c # r" and c: "solid c"
    and last: "j = u @ d # w" and d: "solid d" and w: "\<forall>x\<in>set w. isSpace x"
  shows "\<exists>u' r'. dropWhile isSpace j = u' @ d # w \<and> trim j = u' @ [d] \<and> trim j = c # r'"
proof -
  from d have nd: "\<not> isSpace d" by (simp add: solid_def)
  have "\<exists>u'. dropWhile isSpace j = u' @ d # w"
  proof (cases "\<forall>x\<in>set u. isSpace x")
    case True
    with last nd have "dropWhile isSpace j = [] @ d # w" by (simp add: dropWhile_append)
    then show ?thesis by blast
  next
    case False
    with last have "dropWhile isSpace j = dropWhile isSpace u @ d # w"
      by (auto simp: dropWhile_append)
    then show ?thesis by blast
  qed
  then obtain u' where dj: "dropWhile isSpace j = u' @ d # w" by blast
  with w nd have t: "trim j = u' @ [d]"
    by (simp add: trim_def trimStart_def trimEnd_spaces)
  from dj first have "u' @ d # w = c # r" by simp
  then obtain r' where "u' @ [d] = c # r'" by (cases u') auto
  with t dj show ?thesis by simp
qed

lemma stripCodeFences_unfenced:
  assumes first: "dropWhile isSpace j = c # r" and c: "solid c"
    and last: "j = u @ d # w" and d: "solid d" and w: "\<forall>x\<in>set w. isSpace x"
  shows "stripCodeFences j = trim j"
proof -
  from trim_solid [OF assms] obtain u' r' where t: "trim j = u' @ [d]" and h: "trim j = c # r'"
    by blast
  from c d have nc: "\<not> isSpace c" "c \<noteq> 0x60" and nd: "\<not> isSpace d" "d \<noteq> 0x60"
    by (simp_all add: solid_def)
  from h nc have o: "stripOpeningFence (trim j) = trim j"
    by (auto simp: stripOpeningFence_def fence_def)
  have cl: "stripClosingFence (trim j) = trim j"
  proof (rule ccontr)
    assume "stripClosingFence (trim j) \<noteq> trim j"
    then have l: "3 \<le> length (trim j)" and f: "drop (length (trim j) - 3) (trim j) = fence"
      by (auto simp: stripClosingFence_def split: if_splits)
    from l have "last (drop (length (trim j) - 3) (trim j)) = last (trim j)"
      by (intro last_drop) simp
    with f t have "d = 0x60" by (simp add: fence_def)
    with nd show False by simp
  qed
  have "trim (trim j) = trim j"
  proof -
    from h nc have "trimStart (trim j) = trim j" by (simp add: trimStart_def)
    moreover from t nd have "trimEnd (trim j) = trim j"
      using trimEnd_spaces [of "[]" d u'] by simp
    ultimately show ?thesis by (simp add: trim_def)
  qed
  with o cl show ?thesis by (simp add: stripCodeFences_def)
qed

text \<open>The reply \<open>j\<close> inside a fence with the language tag \<open>json\<close>, each fence on a line
  of its own.\<close>

definition fenced :: "jsstring \<Rightarrow> jsstring" where
  "fenced j = js ''```json'' @ [0x0A] @ j @ [0x0A] @ js ''```''"

lemma stripCodeFences_fenced:
  assumes first: "dropWhile isSpace j = c # r" and c: "solid c"
    and last: "j = u @ d # w" and d: "solid d" and w: "\<forall>x\<in>set w. isSpace x"
  shows "stripCodeFences (fenced j) = trim j"
proof -
  from trim_solid [OF assms] obtain u' r' where dj: "dropWhile isSpace j = u' @ d # w"
    and t: "trim j = u' @ [d]" and h: "trim j = c # r'"
    by blast
  from c d have nc: "\<not> isSpace c" "c \<noteq> 0x60" and nd: "\<not> isSpace d" "d \<noteq> 0x60"
    by (simp_all add: solid_def)
  have tick: "\<not> isSpace 0x60" and nl: "isSpace 0x0A" "\<not> isAlnum 0x0A"
    and json: "isAlnum 0x6A" "isAlnum 0x73" "isAlnum 0x6F" "isAlnum 0x6E"
    by (simp_all add: isSpace_def isAlnum_def)
  have F: "fenced j = 0x60 # 0x60 # 0x60 # 0x6A # 0x73 # 0x6F # 0x6E # 0x0A # j @ [0x0A, 0x60, 0x60] @ [0x60]"
    by (simp add: fenced_def js_def)
  have tF: "trim (fenced j) = fenced j"
  proof -
    have "trimStart (fenced j) = fenced j" using tick by (simp add: F trimStart_def)
    moreover have "trimEnd (fenced j) = fenced j"
      using trimEnd_spaces [of "[]" "0x60" "0x60 # 0x60 # 0x60 # 0x6A # 0x73 # 0x6F # 0x6E # 0x0A # j @ [0x0A, 0x60, 0x60]"] tick
      by (simp add: F)
    ultimately show ?thesis by (simp add: trim_def)
  qed
  from first have ne: "\<not> (\<forall>x\<in>set j. isSpace x)"
    by (metis dropWhile_eq_Nil_conv list.distinct(1))
  have o: "stripOpeningFence (fenced j) = u' @ d # w @ [0x0A, 0x60, 0x60, 0x60]"
    using nl json ne dj by (simp add: F stripOpeningFence_def fence_def dropWhile_append)
  have cl: "stripClosingFence (u' @ d # w @ [0x0A, 0x60, 0x60, 0x60]) = u' @ d # w @ [0x0A]"
    by (simp add: stripClosingFence_def fence_def)
  have "trim (u' @ d # w @ [0x0A]) = u' @ [d]"
  proof -
    from t h have e: "u' @ d # w @ [0x0A] = c # (r' @ w @ [0x0A])"
      by (cases u') auto
    have "trimStart (u' @ d # w @ [0x0A]) = u' @ d # w @ [0x0A]"
      unfolding trimStart_def e using nc by simp
    moreover from w nl nd have "trimEnd (u' @ d # (w @ [0x0A])) = u' @ [d]"
      by (intro trimEnd_spaces) auto
    ultimately show ?thesis by (simp add: trim_def)
  qed
  with tF o cl t show ?thesis by (simp add: stripCodeFences_def)
qed

text \<open>The code units that \<open>normalizeQuotes\<close> rewrites, and a SummaryObject text that holds
  two of them inside a string.\<close>

definition isTypographicQuote :: "jschar \<Rightarrow> bool" where
  "isTypographicQuote c \<longleftrightarrow>
     c \<in> {0x2018, 0x2019, 0x201A, 0x201B, 0x2032, 0x2035,
          0x201C, 0x201D, 0x201E, 0x201F, 0x2033, 0x2036}"

definition quotedText :: jsstring where
  \<open>quotedText =
     js ''{"concise_summary":"'' @ [0x201C] @ js ''x'' @ [0x201D] @
     js ''","key_points":["a"],"novelty":"n","limitations":"l","next_questions":["q"]}''\<close>

definition quotedValue :: json where
  "quotedValue =
     JObject [(js ''concise_summary'', JString ([0x201C] @ js ''x'' @ [0x201D])),
              (js ''key_points'', JArray [JString (js ''a'')]),
              (js ''novelty'', JString (js ''n'')),
              (js ''limitations'', JString (js ''l'')),
              (js ''next_questions'', JArray [JString (js ''q'')])]"

text \<open>\<open>JSON.parse\<close> reads a text it accepts as it reads the trimmed text.\<close>

lemma JSON_parse_trim:
  assumes "JSON_parse j = Some v"
  shows "JSON_parse (trim j) = Some v \<and> trim j \<noteq> [] \<and> stripCodeFences j = trim j \<and>
         stripCodeFences (fenced j) = trim j"
proof -
  from assms obtain ts where tk: "tokenize j = Some ts" and ev: "expect_value [] ts = Some v"
    by (auto simp: JSON_parse_def split: option.splits)
  then have ne: "ts \<noteq> []" by auto
  from tokenize_first [OF tk ne] obtain c r where
    first: "dropWhile isSpace j = c # r" and c: "solid c" by blast
  from tokenize_trailing [OF tk ne] obtain u d w where
    last: "j = u @ d # w" and d: "solid d" and w: "allWs w" by blast
  note sp = allWs_isSpace [OF w]
  from trim_solid [OF first c last d sp] obtain u' r' where
    dj: "dropWhile isSpace j = u' @ d # w" and t: "trim j = u' @ [d]" by blast
  have "j = takeWhile isSpace j @ dropWhile isSpace j" by simp
  with dj t have j: "j = takeWhile isSpace j @ (trim j @ w)" by simp
  have "tokenize j = tokenize (takeWhile isSpace j @ (trim j @ w))"
    by (rule arg_cong [OF j])
  also have "\<dots> = tokenize (trim j @ w)"
    by (rule tokenize_prepend [OF tokenize_leading [OF tk]])
  also have "\<dots> = tokenize (trim j)" by (rule tokenize_append [OF w])
  finally have "JSON_parse (trim j) = JSON_parse j" by (simp add: JSON_parse_def)
  with assms t stripCodeFences_unfenced [OF first c last d sp]
    stripCodeFences_fenced [OF first c last d sp]
  show ?thesis by simp
qed

lemma normalizeQuotes_plain:
  "list_all (\<lambda>c. \<not> isTypographicQuote c) t \<Longrightarrow> normalizeQuotes t = t"
proof -
  assume a: "list_all (\<lambda>c. \<not> isTypographicQuote c) t"
  have "map (doubleQuotes \<circ> singleQuotes) t = t"
  proof (rule map_idI)
    fix c assume "c \<in> set t"
    with a have "\<not> isTypographicQuote c" by (simp add: list_all_iff)
    then show "(doubleQuotes \<circ> singleQuotes) c = c"
      by (simp add: isTypographicQuote_def singleQuotes_def doubleQuotes_def)
  qed
  then show ?thesis by (simp add: normalizeQuotes_def)
qed

lemma list_all_trim: "list_all P j \<Longrightarrow> list_all P (trim j)"
  using set_trim [of j] by (auto simp: list_all_iff)

text \<open>
  C6, as the code has it. For every text \<open>j\<close> that \<open>JSON.parse\<close> accepts (the texts of
  SummaryObjects among them), coercing the fenced reply gives exactly what coercing \<open>j\<close>
  itself gives: stripping the fences leaves the trimmed \<open>j\<close> in both cases. When \<open>j\<close> holds none
  of the typographic quotes that \<open>normalizeQuotes\<close> rewrites, both give the very value that
  \<open>JSON.parse\<close> gives for \<open>j\<close>: the SummaryObject, when \<open>j\<close> is the text of one.
\<close>

theorem fenced_reply_coerces_alike:
  "JSON_parse j = Some v \<Longrightarrow>
   coerceModelJson (fenced j) = coerceModelJson j \<and>
   (list_all (\<lambda>c. \<not> isTypographicQuote c) j \<longrightarrow>
      coerceModelJson (fenced j) = v \<and> coerceModelJson j = v)"
proof -
  assume p: "JSON_parse j = Some v"
  from JSON_parse_trim [OF p] have t: "JSON_parse (trim j) = Some v" "trim j \<noteq> []"
    and s: "stripCodeFences j = trim j" "stripCodeFences (fenced j) = trim j" by simp_all
  from s have cs: "candidates (fenced j) = candidates j" by (simp add: candidates_def)
  from t(2) have j: "j \<noteq> []" by (auto simp: trim_def trimStart_def trimEnd_def)
  have f: "fenced j \<noteq> []" by (simp add: fenced_def)
  from cs j f have e: "coerceModelJson (fenced j) = coerceModelJson j"
    by (simp add: coerceModelJson_def)
  have "coerceModelJson j = v" if q: "list_all (\<lambda>c. \<not> isTypographicQuote c) j"
  proof -
    from normalizeQuotes_plain [OF list_all_trim [OF q]] s(1)
    have "hd (candidates j) = Some (trim j)" by (simp add: candidates_def Let_def)
    moreover have "candidates j = hd (candidates j) # tl (candidates j)"
      by (simp add: candidates_def Let_def)
    ultimately have c: "candidates j = Some (trim j) # tl (candidates j)" by simp
    from t have "tryCandidates (Some (trim j) # tl (candidates j)) = v" by simp
    with c have "tryCandidates (candidates j) = v" by simp
    with j show ?thesis by (simp add: coerceModelJson_def)
  qed
  with e show ?thesis by simp
qed

theorem fenced_reply_coerces_alike_witness:
  "JSON_parse summaryText = Some summaryValue \<and> isSummaryObject summaryValue \<and>
   list_all (\<lambda>c. \<not> isTypographicQuote c) summaryText \<and>
   fenced summaryText = js ''```json'' @ [0x0A] @ summaryText @ [0x0A] @ js ''```'' \<and>
   coerceModelJson (fenced summaryText) = summaryValue \<and>
   coerceModelJson summaryText = summaryValue"
proof -
  have p: "JSON_parse summaryText = Some summaryValue" by code_simp
  have i: "isSummaryObject summaryValue" by code_simp
  have q: "list_all (\<lambda>c. \<not> isTypographicQuote c) summaryText" by code_simp
  from fenced_reply_coerces_alike [OF p] p i q show ?thesis by (simp add: fenced_def)
qed

text \<open>
  C6 as stated fails: a typographic quote inside a string of a SummaryObject text becomes
  an ASCII quote before any parse and ends the string early. The text below is valid JSON
  for a SummaryObject whose \<open>concise_summary\<close> is \<open>x\<close> between the quotes U+201C and U+201D;
  with or without the fence its coercion is \<open>null\<close>, not that SummaryObject, and
  summarization returns the unparsed-summary failure.
\<close>

theorem typographic_quotes_in_summary:
  "JSON_parse quotedText = Some quotedValue \<and> isSummaryObject quotedValue \<and>
   coerceModelJson quotedText = JNull \<and> coerceModelJson (fenced quotedText) = JNull \<and>
   \<not> isSummaryObject JNull \<and>
   coerceReply quotedText = unparsedSummary quotedText \<and>
   coerceReply (fenced quotedText) = unparsedSummary (fenced quotedText)"
proof -
  have p: "JSON_parse quotedText = Some quotedValue" by code_simp
  have i: "isSummaryObject quotedValue" by code_simp
  have c: "coerceModelJson quotedText = JNull" by code_simp
  have f: "coerceModelJson (fenced quotedText) = JNull" by code_simp
  have n: "\<not> isSummaryObject JNull" by (simp add: isSummaryObject_def hasProperty_def)
  have rc: "coerceReply quotedText = unparsedSummary quotedText"
    by (simp add: coerceReply_def c)
  have rf: "coerceReply (fenced quotedText) = unparsedSummary (fenced quotedText)"
    by (simp add: coerceReply_def f)
  from p i c f n rc rf show ?thesis by (intro conjI)
qed

section \<open>Replies without braces\<close>

lemma set_stripCodeFences: "set (stripCodeFences s) \<subseteq> set s"
proof -
  have o: "set (stripOpeningFence t) \<subseteq> set t" for t
    by (auto simp: stripOpeningFence_def dest!: set_dropWhileD in_set_dropD)
  have c: "set (stripClosingFence t) \<subseteq> set t" for t
    by (auto simp: stripClosingFence_def dest: in_set_takeD)
  have "set (stripCodeFences s) \<subseteq> set (stripClosingFence (stripOpeningFence (trim s)))"
    unfolding stripCodeFences_def by (rule set_trim)
  also have "\<dots> \<subseteq> set (stripOpeningFence (trim s))" by (rule c)
  also have "\<dots> \<subseteq> set (trim s)" by (rule o)
  also have "\<dots> \<subseteq> set s" by (rule set_trim)
  finally show ?thesis .
qed

lemma set_stripJsonPrefix: "set (stripJsonPrefix s) \<subseteq> set s"
proof -
  have "set (stripJsonPrefix s) \<subseteq>
      set (if map lowerAscii (take 4 s) = js ''json'' then dropWhile isSpace (drop 4 s) else s)"
    unfolding stripJsonPrefix_def by (rule set_trim)
  also have "\<dots> \<subseteq> set s"
    by (auto dest!: set_dropWhileD in_set_dropD)
  finally show ?thesis .
qed

lemma normalizeQuotes_rbrace: "0x7D \<in> set (normalizeQuotes s) \<Longrightarrow> 0x7D \<in> set s"
  by (auto simp: normalizeQuotes_def singleQuotes_def doubleQuotes_def split: if_splits)

lemma extractJsonBlock_no_rbrace: "0x7D \<notin> set s \<Longrightarrow> extractJsonBlock s = None"
  by (simp add: extractJsonBlock_def lastIndexOf_None split: option.splits)

lemma JSON_parse_object_rbrace: "JSON_parse s = Some (JObject ms) \<Longrightarrow> 0x7D \<in> set s"
proof -
  assume "JSON_parse s = Some (JObject ms)"
  then obtain ts where tk: "tokenize s = Some ts" and "expect_value [] ts = Some (JObject ms)"
    by (auto simp: JSON_parse_def split: option.splits)
  from parse_object_rbrace(1) [OF this(2)] tokenize_rbrace [OF tk] show ?thesis by simp
qed

text \<open>
  C5, as the code has it. For a reply without brace characters the two block candidates
  are \<open>null\<close>, and summarization returns either the failure whose \<open>unparsed_summary\<close> is
  the trimmed reply and whose \<open>parsing_note\<close> is the fixed text, or a truthy value that is
  no object (an array, a string, a number or \<open>true\<close>) which \<open>JSON.parse\<close> returned for
  the normalized text or for that text without its \<open>json\<close> prefix.
\<close>

theorem brace_free_reply:
  assumes reply: "generateContent (buildPrompt rawText) = Inr reply"
    and nobrace: "0x7B \<notin> set reply" "0x7D \<notin> set reply"
  shows
    "candidates (trim reply) =
       [Some (normalizeQuotes (stripCodeFences (trim reply))),
        Some (stripJsonPrefix (normalizeQuotes (stripCodeFences (trim reply)))), None, None] \<and>
     (\<exists>s. summarizeForReview (Some generateContent) rawText = Inr s \<and>
        (s = JObject [(js ''unparsed_summary'', JString (trim reply)),
                      (js ''parsing_note'', JString parsingNote)] \<or>
         (truthy s \<and> (\<forall>ms. s \<noteq> JObject ms) \<and>
          (JSON_parse (normalizeQuotes (stripCodeFences (trim reply))) = Some s \<or>
           JSON_parse (stripJsonPrefix (normalizeQuotes (stripCodeFences (trim reply)))) = Some s))))"
proof -
  let ?raw = "trim reply"
  let ?n = "normalizeQuotes (stripCodeFences ?raw)"
  let ?p = "stripJsonPrefix ?n"
  from nobrace(2) set_trim [of reply] set_stripCodeFences [of ?raw]
  have "0x7D \<notin> set (stripCodeFences ?raw)" by blast
  with normalizeQuotes_rbrace have n: "0x7D \<notin> set ?n" by blast
  with set_stripJsonPrefix [of ?n] have p: "0x7D \<notin> set ?p" by blast
  from n p have blocks: "extractJsonBlock ?n = None" "extractJsonBlock ?p = None"
    by (simp_all add: extractJsonBlock_no_rbrace)
  then have c: "candidates ?raw = [Some ?n, Some ?p, None, None]"
    by (simp add: candidates_def Let_def)
  from reply have s: "summarizeForReview (Some generateContent) rawText = Inr (coerceReply ?raw)"
    by (simp add: summarizeForReview_def)
  have "coerceReply ?raw = unparsedSummary ?raw \<or>
     (truthy (coerceReply ?raw) \<and> (\<forall>ms. coerceReply ?raw \<noteq> JObject ms) \<and>
      (JSON_parse ?n = Some (coerceReply ?raw) \<or> JSON_parse ?p = Some (coerceReply ?raw)))"
  proof (cases "truthy (coerceModelJson ?raw)")
    case False
    then show ?thesis by (simp add: coerceReply_falsy)
  next
    case True
    then have r: "coerceReply ?raw = coerceModelJson ?raw" by (rule coerceReply_truthy)
    from True have "coerceModelJson ?raw \<noteq> JNull" by auto
    with coerceModelJson_cases [of ?raw] c
    have parsed: "JSON_parse ?n = Some (coerceModelJson ?raw) \<or> JSON_parse ?p = Some (coerceModelJson ?raw)"
      by auto
    with n p JSON_parse_object_rbrace have "\<forall>ms. coerceModelJson ?raw \<noteq> JObject ms"
      by metis
    with True r parsed show ?thesis by simp
  qed
  with s c show ?thesis by (simp add: unparsedSummary_def)
qed

lemma prose_reply:
  "coerceReply (trim (js ''The paper discusses...'')) =
     JObject [(js ''unparsed_summary'', JString (js ''The paper discusses...'')),
              (js ''parsing_note'', JString parsingNote)]"
  by code_simp

theorem brace_free_reply_witness:
  "0x7B \<notin> set (js ''The paper discusses...'') \<and> 0x7D \<notin> set (js ''The paper discusses...'') \<and>
   summarizeForReview (Some (\<lambda>prompt. Inr (js ''The paper discusses...''))) (js ''paper'') =
     Inr (JObject [(js ''unparsed_summary'', JString (js ''The paper discusses...'')),
                   (js ''parsing_note'', JString parsingNote)]) \<and>
   candidates (trim (js ''The paper discusses...'')) =
     [Some (js ''The paper discusses...''), Some (js ''The paper discusses...''), None, None]"
proof -
  have b: "0x7B \<notin> set (js ''The paper discusses...'')" "0x7D \<notin> set (js ''The paper discusses...'')"
    by (simp_all add: js_def)
  have g: "(\<lambda>prompt. Inr (js ''The paper discusses...'')) (buildPrompt (js ''paper'')) =
      (Inr (js ''The paper discusses...'') :: js_error + jsstring)" by simp
  have s: "summarizeForReview (Some (\<lambda>prompt. Inr (js ''The paper discusses...''))) (js ''paper'') =
      Inr (JObject [(js ''unparsed_summary'', JString (js ''The paper discusses...'')),
                   (js ''parsing_note'', JString parsingNote)])"
    by (simp add: summarizeForReview_def prose_reply)
  have t: "trim (js ''The paper discusses...'') = js ''The paper discusses...''" by code_simp
  have n: "normalizeQuotes (stripCodeFences (js ''The paper discusses...'')) = js ''The paper discusses...''"
    by code_simp
  have p: "stripJsonPrefix (js ''The paper discusses...'') = js ''The paper discusses...''"
    by code_simp
  from brace_free_reply [OF g b] have
    "candidates (trim (js ''The paper discusses...'')) =
     [Some (js ''The paper discusses...''), Some (js ''The paper discusses...''), None, None]"
    by (simp add: t n p)
  with b s show ?thesis by simp
qed

text \<open>C5 as stated fails: the reply \<open>[1]\<close> has no brace, its first candidate parses, and
  summarization returns the array, not a failure.\<close>

theorem brace_free_reply_parsed:
  "0x7B \<notin> set (js ''[1]'') \<and> 0x7D \<notin> set (js ''[1]'') \<and>
   JSON_parse (normalizeQuotes (stripCodeFences (trim (js ''[1]'')))) = Some (JArray [JNumber 1]) \<and>
   summarizeForReview (Some (\<lambda>prompt. Inr (js ''[1]''))) (js ''paper'') = Inr (JArray [JNumber 1]) \<and>
   JArray [JNumber 1] \<noteq> unparsedSummary (js ''[1]'')"
proof -
  have b: "0x7B \<notin> set (js ''[1]'')" "0x7D \<notin> set (js ''[1]'')"
    by (simp_all add: js_def)
  have p: "JSON_parse (normalizeQuotes (stripCodeFences (trim (js ''[1]'')))) = Some (JArray [JNumber 1])"
    by code_simp
  have c: "coerceReply (trim (js ''[1]'')) = JArray [JNumber 1]" by code_simp
  have s: "summarizeForReview (Some (\<lambda>prompt. Inr (js ''[1]''))) (js ''paper'') = Inr (JArray [JNumber 1])"
    by (simp add: summarizeForReview_def c)
  from b p s show ?thesis by (simp add: unparsedSummary_def)
qed

section \<open>The four candidates\<close>

text \<open>
  The steps that lead to the candidates, in the words of the specification, each as a
  relation between a text and the text the step makes of it. Each is then shown to hold of
  exactly one text, the one the function of the program returns.
\<close>

text \<open>\<open>r\<close> is \<open>t\<close> without the white space around it: white space alone comes before and
  after \<open>r\<close> in \<open>t\<close>, and \<open>r\<close> neither starts nor ends with white space.\<close>

definition isTrimmed :: "jsstring \<Rightarrow> jsstring \<Rightarrow> bool" where
  "isTrimmed t r \<longleftrightarrow>
     (\<exists>pre post. t = pre @ r @ post \<and> list_all isSpace pre \<and> list_all isSpace post) \<and>
     (r = [] \<or> (\<not> isSpace (hd r) \<and> \<not> isSpace (last r)))"

text \<open>\<open>r\<close> is \<open>t\<close> without a leading fence: the three backticks, the language tag (the
  longest run of letters and digits after them, which may be empty) and the white space after
  it are gone; a text that does not start with three backticks is left as it is.\<close>

definition withoutOpeningFence :: "jsstring \<Rightarrow> jsstring \<Rightarrow> bool" where
  "withoutOpeningFence t r \<longleftrightarrow>
     (\<exists>tag ws. t = fence @ tag @ ws @ r \<and> list_all isAlnum tag \<and> list_all isSpace ws \<and>
        (r = [] \<or> \<not> isSpace (hd r)) \<and> (ws \<noteq> [] \<or> r = [] \<or> \<not> isAlnum (hd r))) \<or>
     (take 3 t \<noteq> fence \<and> r = t)"

text \<open>\<open>r\<close> is \<open>t\<close> without a trailing fence: three backticks at the very end are gone; a
  text that does not end with them is left as it is.\<close>

definition withoutClosingFence :: "jsstring \<Rightarrow> jsstring \<Rightarrow> bool" where
  "withoutClosingFence t r \<longleftrightarrow> t = r @ fence \<or> ((\<forall>p. t \<noteq> p @ fence) \<and> r = t)"

text \<open>\<open>cleaned\<close> is the fence-stripped reply: the reply is trimmed, loses a leading and a
  trailing fence, and is trimmed again.\<close>

definition isFenceStripped :: "jsstring \<Rightarrow> jsstring \<Rightarrow> bool" where
  "isFenceStripped raw cleaned \<longleftrightarrow>
     (\<exists>a b c. isTrimmed raw a \<and> withoutOpeningFence a b \<and> withoutClosingFence b c \<and>
        isTrimmed c cleaned)"

text \<open>\<open>n\<close> is \<open>t\<close> with straight quotes: code unit by code unit, each typographic single
  quote has become an apostrophe, each typographic double quote a quotation mark, and
  every other code unit is itself.\<close>

definition isQuoteNormalized :: "jsstring \<Rightarrow> jsstring \<Rightarrow> bool" where
  "isQuoteNormalized t n \<longleftrightarrow>
     list_all2
       (\<lambda>c d. d = (if c \<in> {0x2018, 0x2019, 0x201A, 0x201B, 0x2032, 0x2035} then 0x27
                    else if c \<in> {0x201C, 0x201D, 0x201E, 0x201F, 0x2033, 0x2036} then 0x22
                    else c))
       t n"

text \<open>The label \<open>json\<close>, each letter in either case.\<close>

definition isJsonLabel :: "jsstring \<Rightarrow> bool" where
  "isJsonLabel p \<longleftrightarrow>
     (\<exists>c1 c2 c3 c4. p = [c1, c2, c3, c4] \<and> c1 \<in> {0x6A, 0x4A} \<and> c2 \<in> {0x73, 0x53} \<and>
        c3 \<in> {0x6F, 0x4F} \<and> c4 \<in> {0x6E, 0x4E})"

text \<open>\<open>r\<close> is \<open>t\<close> with the prefix stripped: a leading label \<open>json\<close> and the white space
  after it are gone, a text without the label is left as it is, and the outcome is
  trimmed.\<close>

definition isPrefixStripped :: "jsstring \<Rightarrow> jsstring \<Rightarrow> bool" where
  "isPrefixStripped t r \<longleftrightarrow>
     (\<exists>b. isTrimmed b r \<and>
        ((\<exists>label ws. t = label @ ws @ b \<and> isJsonLabel label \<and> list_all isSpace ws \<and>
            (b = [] \<or> \<not> isSpace (hd b))) \<or>
         (\<not> isJsonLabel (take 4 t) \<and> b = t)))"

text \<open>A reply with a fence and its language tag, the label \<open>JSON\<close>, typographic quotes
  around a key, and an array around the object.\<close>

definition labelledReply :: jsstring where
  "labelledReply =
     js ''```json'' @ [0x0A] @ js ''JSON [{'' @ [0x201C] @ js ''a'' @ [0x201D] @ js '': 1}]'' @
     [0x0A] @ js ''```''"

subsection \<open>Each step determines one text\<close>

lemma dropWhile_all: "list_all P xs \<Longrightarrow> dropWhile P (xs @ ys) = dropWhile P ys"
  by (induction xs) simp_all

lemma dropWhile_stop: "ys = [] \<or> \<not> P (hd ys) \<Longrightarrow> dropWhile P ys = ys"
  by (cases ys) auto

lemma dropWhile_head: "dropWhile P xs = [] \<or> \<not> P (hd (dropWhile P xs))"
  by (cases "dropWhile P xs = []") (simp_all add: hd_dropWhile)

lemma list_all_takeWhile: "list_all P (takeWhile P xs)"
  by (induction xs) simp_all

lemma trim_spaces: "list_all isSpace t \<Longrightarrow> trim t = []"
proof -
  assume "list_all isSpace t"
  then have d: "dropWhile isSpace t = []" by (simp add: list_all_iff)
  show ?thesis unfolding trim_def trimStart_def trimEnd_def d by simp
qed

lemma trim_isTrimmed: "isTrimmed t (trim t)"
proof -
  let ?s = "dropWhile isSpace t"
  let ?e = "dropWhile isSpace (rev ?s)"
  have r: "trim t = rev ?e" by (simp add: trim_def trimStart_def trimEnd_def)
  have "rev (takeWhile isSpace (rev ?s) @ ?e) = rev (rev ?s)"
    by (simp only: takeWhile_dropWhile_id)
  then have "rev ?e @ rev (takeWhile isSpace (rev ?s)) = ?s"
    by (simp only: rev_append rev_rev_ident)
  then have s: "?s = rev ?e @ rev (takeWhile isSpace (rev ?s))" by (rule sym)
  have "t = takeWhile isSpace t @ ?s" by simp
  with s r have d: "t = takeWhile isSpace t @ trim t @ rev (takeWhile isSpace (rev ?s))" by simp
  have p: "list_all isSpace (takeWhile isSpace t)" by (rule list_all_takeWhile)
  have q: "list_all isSpace (rev (takeWhile isSpace (rev ?s)))"
    using list_all_takeWhile [of isSpace "rev ?s"] by (simp add: list_all_iff)
  have e: "trim t = [] \<or> (\<not> isSpace (hd (trim t)) \<and> \<not> isSpace (last (trim t)))"
  proof (cases "trim t = []")
    case True
    then show ?thesis by simp
  next
    case False
    with r have ne: "?e \<noteq> []" by simp
    then have l: "\<not> isSpace (hd ?e)" by (rule hd_dropWhile)
    from ne r have "last (trim t) = hd ?e" by (simp add: last_rev)
    with l have 1: "\<not> isSpace (last (trim t))" by simp
    from s r have "?s = trim t @ rev (takeWhile isSpace (rev ?s))" by simp
    with False have "hd ?s = hd (trim t)" by (metis hd_append2)
    moreover have "?s \<noteq> []"
    proof
      assume a: "?s = []"
      have "?e = []" unfolding a by simp
      with ne show False by (rule notE)
    qed
    ultimately have "\<not> isSpace (hd (trim t))" using hd_dropWhile [of isSpace t] by simp
    with 1 show ?thesis by simp
  qed
  from d p q e show ?thesis unfolding isTrimmed_def by blast
qed

lemma isTrimmed_unique: "isTrimmed t r \<Longrightarrow> r = trim t"
proof -
  assume "isTrimmed t r"
  then obtain pre post where t: "t = pre @ r @ post" and p: "list_all isSpace pre"
    and q: "list_all isSpace post" and e: "r = [] \<or> (\<not> isSpace (hd r) \<and> \<not> isSpace (last r))"
    unfolding isTrimmed_def by blast
  show ?thesis
  proof (cases "r = []")
    case True
    with t p q have "list_all isSpace t" by simp
    with True show ?thesis by (simp add: trim_spaces)
  next
    case False
    with e have h: "\<not> isSpace (hd r)" and l: "\<not> isSpace (last r)" by simp_all
    from False h have "dropWhile isSpace (r @ post) = r @ post" by (cases r) simp_all
    with t p have s: "trimStart t = r @ post" by (simp add: trimStart_def dropWhile_all)
    have "butlast r @ last r # post = (butlast r @ [last r]) @ post" by simp
    also from append_butlast_last_id [OF False] have "\<dots> = r @ post"
      by (rule arg_cong [where f = "\<lambda>x. x @ post"])
    finally have "trimEnd (r @ post) = trimEnd (butlast r @ last r # post)" by (rule arg_cong [OF sym])
    also from q l have "\<dots> = butlast r @ [last r]"
      by (intro trimEnd_spaces) (simp_all add: list_all_iff)
    also from False have "\<dots> = r" by (rule append_butlast_last_id)
    finally have "trimEnd (r @ post) = r" .
    with s show ?thesis by (simp add: trim_def)
  qed
qed

lemma isTrimmed_iff: "isTrimmed t r \<longleftrightarrow> r = trim t"
  using trim_isTrimmed isTrimmed_unique by blast

lemma isSpace_not_isAlnum: "isSpace c \<Longrightarrow> \<not> isAlnum c"
  unfolding isSpace_def isAlnum_def
  by (auto simp: word_le_nat_alt)

lemma stripOpeningFence_without: "withoutOpeningFence t (stripOpeningFence t)"
proof (cases "take 3 t = fence")
  case False
  then show ?thesis by (simp add: withoutOpeningFence_def stripOpeningFence_def)
next
  case True
  let ?x = "dropWhile isAlnum (drop 3 t)"
  let ?r = "dropWhile isSpace ?x"
  from True have r: "stripOpeningFence t = ?r" by (simp add: stripOpeningFence_def)
  have "t = take 3 t @ drop 3 t" by simp
  also have "drop 3 t = takeWhile isAlnum (drop 3 t) @ ?x" by simp
  also have "?x = takeWhile isSpace ?x @ ?r" by simp
  finally have t: "t = fence @ takeWhile isAlnum (drop 3 t) @ takeWhile isSpace ?x @ ?r"
    using True by simp
  have 1: "?r = [] \<or> \<not> isSpace (hd ?r)" by (rule dropWhile_head)
  have 2: "takeWhile isSpace ?x \<noteq> [] \<or> ?r = [] \<or> \<not> isAlnum (hd ?r)"
  proof (cases "takeWhile isSpace ?x = []")
    case False
    then show ?thesis by simp
  next
    case e: True
    have "?x = takeWhile isSpace ?x @ ?r" by simp
    with e have x: "?r = ?x" by simp
    from dropWhile_head [of isAlnum "drop 3 t"] show ?thesis unfolding x by simp
  qed
  have "\<exists>tag ws. t = fence @ tag @ ws @ ?r \<and> list_all isAlnum tag \<and> list_all isSpace ws \<and>
        (?r = [] \<or> \<not> isSpace (hd ?r)) \<and> (ws \<noteq> [] \<or> ?r = [] \<or> \<not> isAlnum (hd ?r))"
    using t 1 2 list_all_takeWhile [of isAlnum "drop 3 t"] list_all_takeWhile [of isSpace ?x]
    by blast
  then show ?thesis unfolding withoutOpeningFence_def r by (rule disjI1)
qed

lemma withoutOpeningFence_unique: "withoutOpeningFence t r \<Longrightarrow> r = stripOpeningFence t"
  unfolding withoutOpeningFence_def
proof (erule disjE)
  assume "take 3 t \<noteq> fence \<and> r = t"
  then show ?thesis by (simp add: stripOpeningFence_def)
next
  assume "\<exists>tag ws. t = fence @ tag @ ws @ r \<and> list_all isAlnum tag \<and> list_all isSpace ws \<and>
        (r = [] \<or> \<not> isSpace (hd r)) \<and> (ws \<noteq> [] \<or> r = [] \<or> \<not> isAlnum (hd r))"
  then obtain tag ws where t: "t = fence @ tag @ ws @ r" and tag: "list_all isAlnum tag"
    and ws: "list_all isSpace ws" and r: "r = [] \<or> \<not> isSpace (hd r)"
    and m: "ws \<noteq> [] \<or> r = [] \<or> \<not> isAlnum (hd r)" by blast
  from t have f: "take 3 t = fence" and d: "drop 3 t = tag @ ws @ r" by (simp_all add: fence_def)
  have stop: "ws @ r = [] \<or> \<not> isAlnum (hd (ws @ r))"
  proof (cases ws)
    case Nil
    with m show ?thesis by simp
  next
    case (Cons a w)
    with ws have "isSpace a" by simp
    with Cons show ?thesis by (simp add: isSpace_not_isAlnum)
  qed
  have "dropWhile isAlnum (tag @ ws @ r) = dropWhile isAlnum (ws @ r)"
    using tag by (rule dropWhile_all)
  also have "\<dots> = ws @ r" using stop by (rule dropWhile_stop)
  finally have x: "dropWhile isAlnum (drop 3 t) = ws @ r" unfolding d .
  have "dropWhile isSpace (ws @ r) = dropWhile isSpace r" using ws by (rule dropWhile_all)
  also have "\<dots> = r" using r by (rule dropWhile_stop)
  finally show ?thesis using f x by (simp add: stripOpeningFence_def)
qed

lemma withoutOpeningFence_iff: "withoutOpeningFence t r \<longleftrightarrow> r = stripOpeningFence t"
  using stripOpeningFence_without withoutOpeningFence_unique by blast

lemma withoutClosingFence_iff: "withoutClosingFence t r \<longleftrightarrow> r = stripClosingFence t"
proof (cases "3 \<le> length t \<and> drop (length t - 3) t = fence")
  case True
  have "t = take (length t - 3) t @ drop (length t - 3) t" by simp
  with True have t: "t = take (length t - 3) t @ fence" by simp
  from True have s: "stripClosingFence t = take (length t - 3) t" by (simp add: stripClosingFence_def)
  show ?thesis
  proof
    assume "withoutClosingFence t r"
    with t have "t = r @ fence" unfolding withoutClosingFence_def by blast
    with t have "take (length t - 3) t @ fence = r @ fence" by simp
    then show "r = stripClosingFence t" unfolding s by simp
  next
    assume "r = stripClosingFence t"
    with s t show "withoutClosingFence t r" unfolding withoutClosingFence_def by simp
  qed
next
  case False
  then have s: "stripClosingFence t = t" unfolding stripClosingFence_def by (rule if_not_P)
  have n: "t \<noteq> p @ fence" for p
  proof
    assume "t = p @ fence"
    then have "3 \<le> length t \<and> drop (length t - 3) t = fence" by (simp add: fence_def)
    with False show False by (rule notE)
  qed
  show ?thesis
  proof
    assume "withoutClosingFence t r"
    with n show "r = stripClosingFence t" unfolding withoutClosingFence_def s by blast
  next
    assume "r = stripClosingFence t"
    with s n show "withoutClosingFence t r" unfolding withoutClosingFence_def by simp
  qed
qed

lemma isFenceStripped_iff: "isFenceStripped raw cleaned \<longleftrightarrow> cleaned = stripCodeFences raw"
  by (simp add: isFenceStripped_def isTrimmed_iff withoutOpeningFence_iff withoutClosingFence_iff
      stripCodeFences_def)

lemma list_all2_function: "list_all2 (\<lambda>c d. d = f c) t n \<longleftrightarrow> n = map f t"
  by (induction t arbitrary: n) (auto simp: list_all2_Cons1)

lemma isQuoteNormalized_iff: "isQuoteNormalized t n \<longleftrightarrow> n = normalizeQuotes t"
proof -
  have "normalizeQuotes t =
    map (\<lambda>c. if c \<in> {0x2018, 0x2019, 0x201A, 0x201B, 0x2032, 0x2035} then 0x27
              else if c \<in> {0x201C, 0x201D, 0x201E, 0x201F, 0x2033, 0x2036} then 0x22
              else c) t"
    by (simp add: normalizeQuotes_def singleQuotes_def doubleQuotes_def)
  then show ?thesis by (simp only: isQuoteNormalized_def list_all2_function)
qed

lemma lowerAscii_letter:
  "lowerAscii c = 0x6A \<longleftrightarrow> c = 0x6A \<or> c = 0x4A"
  "lowerAscii c = 0x73 \<longleftrightarrow> c = 0x73 \<or> c = 0x53"
  "lowerAscii c = 0x6F \<longleftrightarrow> c = 0x6F \<or> c = 0x4F"
  "lowerAscii c = 0x6E \<longleftrightarrow> c = 0x6E \<or> c = 0x4E"
  unfolding lowerAscii_def
  by (auto simp: word_le_nat_alt eq_diff_eq [symmetric])

lemma isJsonLabel_iff: "isJsonLabel p \<longleftrightarrow> map lowerAscii p = js ''json''"
proof
  assume "isJsonLabel p"
  then obtain c1 c2 c3 c4 where "p = [c1, c2, c3, c4]" "c1 = 0x6A \<or> c1 = 0x4A"
    "c2 = 0x73 \<or> c2 = 0x53" "c3 = 0x6F \<or> c3 = 0x4F" "c4 = 0x6E \<or> c4 = 0x4E"
    unfolding isJsonLabel_def by auto
  then show "map lowerAscii p = js ''json''" by (simp add: js_def lowerAscii_letter)
next
  assume a: "map lowerAscii p = js ''json''"
  then have "length p = 4" by (auto simp: js_def dest: arg_cong [where f = length])
  then obtain c1 c2 c3 c4 where p: "p = [c1, c2, c3, c4]"
    by (cases p; cases "tl p"; cases "tl (tl p)"; cases "tl (tl (tl p))") auto
  with a have "c1 = 0x6A \<or> c1 = 0x4A" "c2 = 0x73 \<or> c2 = 0x53" "c3 = 0x6F \<or> c3 = 0x4F"
    "c4 = 0x6E \<or> c4 = 0x4E" by (simp_all add: js_def lowerAscii_letter)
  with p show "isJsonLabel p" unfolding isJsonLabel_def by simp
qed

lemma stripJsonPrefix_isPrefixStripped: "isPrefixStripped t (stripJsonPrefix t)"
proof (cases "isJsonLabel (take 4 t)")
  case False
  then have "stripJsonPrefix t = trim t" by (simp add: stripJsonPrefix_def isJsonLabel_iff)
  with False trim_isTrimmed [of t] show ?thesis unfolding isPrefixStripped_def by auto
next
  case True
  let ?b = "dropWhile isSpace (drop 4 t)"
  from True have s: "stripJsonPrefix t = trim ?b" by (simp add: stripJsonPrefix_def isJsonLabel_iff)
  have "t = take 4 t @ drop 4 t" by simp
  also have "drop 4 t = takeWhile isSpace (drop 4 t) @ ?b" by simp
  finally have t: "t = take 4 t @ takeWhile isSpace (drop 4 t) @ ?b" .
  have "\<exists>label ws. t = label @ ws @ ?b \<and> isJsonLabel label \<and> list_all isSpace ws \<and>
          (?b = [] \<or> \<not> isSpace (hd ?b))"
    using t True list_all_takeWhile [of isSpace "drop 4 t"] dropWhile_head [of isSpace "drop 4 t"]
    by blast
  with trim_isTrimmed [of ?b] show ?thesis unfolding isPrefixStripped_def s by blast
qed

lemma isPrefixStripped_unique: "isPrefixStripped t r \<Longrightarrow> r = stripJsonPrefix t"
proof -
  assume "isPrefixStripped t r"
  then obtain b where r: "r = trim b"
    and c: "(\<exists>label ws. t = label @ ws @ b \<and> isJsonLabel label \<and> list_all isSpace ws \<and>
            (b = [] \<or> \<not> isSpace (hd b))) \<or> (\<not> isJsonLabel (take 4 t) \<and> b = t)"
    unfolding isPrefixStripped_def isTrimmed_iff by blast
  from c show ?thesis
  proof
    assume "\<not> isJsonLabel (take 4 t) \<and> b = t"
    with r show ?thesis by (simp add: stripJsonPrefix_def isJsonLabel_iff)
  next
    assume "\<exists>label ws. t = label @ ws @ b \<and> isJsonLabel label \<and> list_all isSpace ws \<and>
            (b = [] \<or> \<not> isSpace (hd b))"
    then obtain label ws where t: "t = label @ ws @ b" and l: "isJsonLabel label"
      and ws: "list_all isSpace ws" and b: "b = [] \<or> \<not> isSpace (hd b)" by blast
    from l have len: "length label = 4" unfolding isJsonLabel_def by auto
    with t have tk: "take 4 t = label" and d: "drop 4 t = ws @ b" by simp_all
    have "dropWhile isSpace (ws @ b) = dropWhile isSpace b" using ws by (rule dropWhile_all)
    also have "\<dots> = b" using b by (rule dropWhile_stop)
    finally have "dropWhile isSpace (drop 4 t) = b" unfolding d .
    with l tk r show ?thesis by (simp add: stripJsonPrefix_def isJsonLabel_iff [symmetric])
  qed
qed

lemma isPrefixStripped_iff: "isPrefixStripped t r \<longleftrightarrow> r = stripJsonPrefix t"
  using stripJsonPrefix_isPrefixStripped isPrefixStripped_unique by blast

subsection \<open>The candidates and their order\<close>

text \<open>
  C4. For a non-empty reply the candidates are four, in this order: the fence-stripped,
  quote-normalized text; that text with the \<open>json\<close> prefix stripped; the substring of the
  former from its first \<open>{\<close> to its last \<open>}\<close>; the same substring of the latter (where
  no such substring exists the candidate is \<open>null\<close> and is passed over). Each of these
  texts is the only one that the step described yields. \<open>coerceModelJson\<close> returns what a
  strict parse gives for the first candidate, in that order, that parses; \<open>null\<close> when
  none does.
\<close>

theorem coerceModelJson_first_parsed:
  "raw \<noteq> [] \<Longrightarrow>
   (\<exists>cleaned normalized withoutPrefix block blockWithoutPrefix.
      (\<forall>t. isFenceStripped raw t \<longleftrightarrow> t = cleaned) \<and>
      (\<forall>t. isQuoteNormalized cleaned t \<longleftrightarrow> t = normalized) \<and>
      (\<forall>t. isPrefixStripped normalized t \<longleftrightarrow> t = withoutPrefix) \<and>
      (\<forall>b. isBraceBlock normalized b \<longleftrightarrow> block = Some b) \<and>
      (\<forall>b. isBraceBlock withoutPrefix b \<longleftrightarrow> blockWithoutPrefix = Some b) \<and>
      candidates raw = [Some normalized, Some withoutPrefix, block, blockWithoutPrefix]) \<and>
   coerceModelJson raw =
     (case firstParsed (candidateStrings raw) of Some v \<Rightarrow> v | None \<Rightarrow> JNull)"
proof
  assume raw: "raw \<noteq> []"
  let ?cleaned = "stripCodeFences raw"
  let ?normalized = "normalizeQuotes ?cleaned"
  let ?withoutPrefix = "stripJsonPrefix ?normalized"
  have c: "candidates raw = [Some ?normalized, Some ?withoutPrefix,
      extractJsonBlock ?normalized, extractJsonBlock ?withoutPrefix]"
    by (simp add: candidates_def Let_def)
  have 1: "\<forall>t. isFenceStripped raw t \<longleftrightarrow> t = ?cleaned" by (simp add: isFenceStripped_iff)
  have 2: "\<forall>t. isQuoteNormalized ?cleaned t \<longleftrightarrow> t = ?normalized"
    by (simp add: isQuoteNormalized_iff)
  have 3: "\<forall>t. isPrefixStripped ?normalized t \<longleftrightarrow> t = ?withoutPrefix"
    by (simp add: isPrefixStripped_iff)
  have 4: "\<forall>b. isBraceBlock ?normalized b \<longleftrightarrow> extractJsonBlock ?normalized = Some b"
    by (simp add: extractJsonBlock_Some)
  have 5: "\<forall>b. isBraceBlock ?withoutPrefix b \<longleftrightarrow> extractJsonBlock ?withoutPrefix = Some b"
    by (simp add: extractJsonBlock_Some)
  from 1 2 3 4 5 c
  show "\<exists>cleaned normalized withoutPrefix block blockWithoutPrefix.
      (\<forall>t. isFenceStripped raw t \<longleftrightarrow> t = cleaned) \<and>
      (\<forall>t. isQuoteNormalized cleaned t \<longleftrightarrow> t = normalized) \<and>
      (\<forall>t. isPrefixStripped normalized t \<longleftrightarrow> t = withoutPrefix) \<and>
      (\<forall>b. isBraceBlock normalized b \<longleftrightarrow> block = Some b) \<and>
      (\<forall>b. isBraceBlock withoutPrefix b \<longleftrightarrow> blockWithoutPrefix = Some b) \<and>
      candidates raw = [Some normalized, Some withoutPrefix, block, blockWithoutPrefix]"
    by blast
next
  assume "raw \<noteq> []"
  then show "coerceModelJson raw =
     (case firstParsed (candidateStrings raw) of Some v \<Rightarrow> v | None \<Rightarrow> JNull)"
    by (simp add: coerceModelJson_def candidateStrings_def tryCandidates_firstParsed)
qed

theorem coerceModelJson_first_parsed_witness:
  \<open>labelledReply \<noteq> [] \<and>
   isFenceStripped labelledReply (js ''JSON [{'' @ [0x201C] @ js ''a'' @ [0x201D] @ js '': 1}]'') \<and>
   isQuoteNormalized (js ''JSON [{'' @ [0x201C] @ js ''a'' @ [0x201D] @ js '': 1}]'')
     (js ''JSON [{"a": 1}]'') \<and>
   isPrefixStripped (js ''JSON [{"a": 1}]'') (js ''[{"a": 1}]'') \<and>
   isBraceBlock (js ''JSON [{"a": 1}]'') (js ''{"a": 1}'') \<and>
   isBraceBlock (js ''[{"a": 1}]'') (js ''{"a": 1}'') \<and>
   candidates labelledReply =
     [Some (js ''JSON [{"a": 1}]''), Some (js ''[{"a": 1}]''),
      Some (js ''{"a": 1}''), Some (js ''{"a": 1}'')] \<and>
   JSON_parse (js ''JSON [{"a": 1}]'') = None \<and>
   JSON_parse (js ''[{"a": 1}]'') = Some (JArray [JObject [(js ''a'', JNumber 1)]]) \<and>
   JSON_parse (js ''{"a": 1}'') = Some (JObject [(js ''a'', JNumber 1)]) \<and>
   coerceModelJson labelledReply = JArray [JObject [(js ''a'', JNumber 1)]]\<close>
proof -
  let ?C = \<open>js ''JSON [{'' @ [0x201C] @ js ''a'' @ [0x201D] @ js '': 1}]''\<close>
  let ?N = \<open>js ''JSON [{"a": 1}]''\<close>
  let ?W = \<open>js ''[{"a": 1}]''\<close>
  let ?B = \<open>js ''{"a": 1}''\<close>
  have n: "labelledReply \<noteq> []" by (simp add: labelledReply_def js_def)
  have s: "stripCodeFences labelledReply = ?C" by code_simp
  have c: "candidates labelledReply = [Some ?N, Some ?W, Some ?B, Some ?B]" by code_simp
  have p1: "JSON_parse ?N = None" by code_simp
  have p2: "JSON_parse ?W = Some (JArray [JObject [(js ''a'', JNumber 1)]])" by code_simp
  have p3: "JSON_parse ?B = Some (JObject [(js ''a'', JNumber 1)])" by code_simp
  from coerceModelJson_first_parsed [OF n]
  obtain cleaned normalized withoutPrefix block blockWithoutPrefix where
    f: "\<forall>t. isFenceStripped labelledReply t \<longleftrightarrow> t = cleaned"
    and q: "\<forall>t. isQuoteNormalized cleaned t \<longleftrightarrow> t = normalized"
    and x: "\<forall>t. isPrefixStripped normalized t \<longleftrightarrow> t = withoutPrefix"
    and b1: "\<forall>b. isBraceBlock normalized b \<longleftrightarrow> block = Some b"
    and b2: "\<forall>b. isBraceBlock withoutPrefix b \<longleftrightarrow> blockWithoutPrefix = Some b"
    and cs: "candidates labelledReply = [Some normalized, Some withoutPrefix, block, blockWithoutPrefix]"
    and r: "coerceModelJson labelledReply =
      (case firstParsed (candidateStrings labelledReply) of Some v \<Rightarrow> v | None \<Rightarrow> JNull)"
    by (elim conjE exE)
  from cs c have "[Some normalized, Some withoutPrefix, block, blockWithoutPrefix] =
      [Some ?N, Some ?W, Some ?B, Some ?B]" by (rule trans [OF sym])
  then have "normalized = ?N \<and> withoutPrefix = ?W \<and> block = Some ?B \<and>
      blockWithoutPrefix = Some ?B" by (simp only: list.inject option.inject simp_thms)
  then have e: "normalized = ?N" "withoutPrefix = ?W" "block = Some ?B"
    "blockWithoutPrefix = Some ?B" by blast+
  from s have "isFenceStripped labelledReply ?C" by (simp only: isFenceStripped_iff)
  with f have cl: "cleaned = ?C" by simp
  from f cl have w1: "isFenceStripped labelledReply ?C" by simp
  from q cl e have w2: "isQuoteNormalized ?C ?N" by simp
  from x e have w3: "isPrefixStripped ?N ?W" by simp
  from b1 e have w4: "isBraceBlock ?N ?B" by simp
  from b2 e have w5: "isBraceBlock ?W ?B" by simp
  have "candidateStrings labelledReply = [?N, ?W, ?B, ?B]" by (simp add: candidateStrings_def c)
  with r p1 p2 have w6: "coerceModelJson labelledReply = JArray [JObject [(js ''a'', JNumber 1)]]"
    by simp
  from n w1 w2 w3 w4 w5 c p1 p2 p3 w6 show ?thesis by (intro conjI)
qed

section \<open>Accounts and sessions\<close>

text \<open>
  A user object. The stored record has \<open>passwordHash\<close>; the objects \<open>{id, name, email}\<close>
  that are kept under a token, put in a session and sent to the client have none.
\<close>

record user =
  uid :: jsstring
  name :: jsstring
  email :: jsstring
  passwordHash :: "jsstring option"

text \<open>The body of a signup request whose properties are strings; a property that is
  missing defaults to the empty string.\<close>

record credentials =
  body_name :: jsstring
  body_email :: jsstring
  body_password :: jsstring

text \<open>
  The body of a login request as \<open>express.json\<close> hands it over: each of \<open>email\<close> and
  \<open>password\<close> is missing (\<open>None\<close>, also when there is no body at all) or is any JSON
  value. The destructuring gives a missing property the default \<open>''\<close>, and only a missing
  one: \<open>null\<close> stays \<open>null\<close>.
\<close>

record login_body =
  login_email :: "json option"
  login_password :: "json option"

definition orEmpty :: "json option \<Rightarrow> json" where
  "orEmpty v = (case v of None \<Rightarrow> JString [] | Some x \<Rightarrow> x)"

text \<open>What the handlers call from the language and from \<open>crypto\<close>.\<close>

record auth_platform =
  toLowerCase :: "jsstring \<Rightarrow> jsstring"
  sha256hex :: "jsstring \<Rightarrow> jsstring"

definition normalizeEmail :: "auth_platform \<Rightarrow> jsstring \<Rightarrow> jsstring" where
  "normalizeEmail P e = toLowerCase P (trim e)"

definition hashPassword :: "auth_platform \<Rightarrow> jsstring \<Rightarrow> jsstring" where
  "hashPassword P password = sha256hex P password"

text \<open>
  The same two functions on any JSON value; \<open>None\<close> is the TypeError they throw. Only a
  string has a \<open>trim\<close> method, and \<open>update\<close> of a hash takes, of the JSON values, only a
  string.
\<close>

definition normalizeEmailOf :: "auth_platform \<Rightarrow> json \<Rightarrow> jsstring option" where
  "normalizeEmailOf P v = (case v of JString e \<Rightarrow> Some (normalizeEmail P e) | _ \<Rightarrow> None)"

definition hashPasswordOf :: "auth_platform \<Rightarrow> json \<Rightarrow> jsstring option" where
  "hashPasswordOf P v = (case v of JString password \<Rightarrow> Some (hashPassword P password) | _ \<Rightarrow> None)"

text \<open>What becomes of a request: the handler sends a response, or a TypeError leaves the
  handler.\<close>

datatype 'a outcome = Responds 'a | Throws

text \<open>The body of a successful signup or login.\<close>

record login_reply =
  reply_user :: user
  reply_token :: "jsstring option"
  redirect :: jsstring

definition publicUser :: "user \<Rightarrow> user" where
  "publicUser u = \<lparr>uid = uid u, name = name u, email = email u, passwordHash = None\<rparr>"

subsection \<open>The token variant\<close>

text \<open>\<open>userStore\<close>, one \<open>Map\<close> for the accounts (by normalized email) and for the
  sessions (by token).\<close>

type_synonym userStore = "jsstring \<rightharpoonup> user"

definition requireAuth :: "userStore \<Rightarrow> jsstring option \<Rightarrow> http_error + user" where
  "requireAuth store authorization =
     (case authorization of
        None \<Rightarrow> Inl (HttpError 401 (js ''Authentication required''))
      | Some authHeader \<Rightarrow>
          if authHeader = [] \<or> take 7 authHeader \<noteq> js ''Bearer '' then
            Inl (HttpError 401 (js ''Authentication required''))
          else
            (case store (drop 7 authHeader) of
               None \<Rightarrow> Inl (HttpError 401 (js ''Invalid token''))
             | Some u \<Rightarrow> Inr u))"

text \<open>\<open>uuid\<close> is what \<open>crypto.randomUUID()\<close> returns and \<open>token\<close> what
  \<open>crypto.randomBytes(32).toString('hex')\<close> returns during the request.\<close>

definition signup ::
  "auth_platform \<Rightarrow> jsstring \<Rightarrow> jsstring \<Rightarrow> userStore \<Rightarrow> credentials \<Rightarrow>
   (http_error + login_reply) \<times> userStore" where
  "signup P uuid token store body =
     (if body_email body = [] \<or> body_password body = [] \<or> length (body_password body) < 6 then
        (Inl (HttpError 400 (js ''Provide a valid email and a password with at least 6 characters.'')),
         store)
      else
        (let normalizedEmail = normalizeEmail P (body_email body) in
         if store normalizedEmail \<noteq> None then
           (Inl (HttpError 409 (js ''Email already registered. Please sign in.'')), store)
         else
           (let u = \<lparr>uid = uuid,
                     name = (if trim (body_name body) = [] then js ''Guest''
                             else trim (body_name body)),
                     email = normalizedEmail,
                     passwordHash = Some (hashPassword P (body_password body))\<rparr>;
                store1 = store(normalizedEmail \<mapsto> u);
                store2 = store1(token \<mapsto> publicUser u)
            in (Inr \<lparr>reply_user = publicUser u, reply_token = Some token,
                      redirect = js ''/app.html''\<rparr>,
                store2))))"

text \<open>
  \<open>POST /sessions/login\<close> of the token variant. \<open>hashPassword\<close> is the right operand of
  \<open>||\<close>: it runs only when the email is registered. The handler is synchronous, so a
  TypeError goes to the error middleware, which redirects to the error page (status 302).
\<close>

definition login ::
  "auth_platform \<Rightarrow> jsstring \<Rightarrow> userStore \<Rightarrow> login_body \<Rightarrow>
   (http_error + login_reply) outcome \<times> userStore" where
  "login P token store body =
     (case normalizeEmailOf P (orEmpty (login_email body)) of
        None \<Rightarrow> (Throws, store)
      | Some normalizedEmail \<Rightarrow>
          (case store normalizedEmail of
             None \<Rightarrow> (Responds (Inl (HttpError 401 (js ''Invalid email or password.''))), store)
           | Some u \<Rightarrow>
               (case hashPasswordOf P (orEmpty (login_password body)) of
                  None \<Rightarrow> (Throws, store)
                | Some h \<Rightarrow>
                    if passwordHash u \<noteq> Some h then
                      (Responds (Inl (HttpError 401 (js ''Invalid email or password.''))), store)
                    else
                      (Responds (Inr \<lparr>reply_user = publicUser u, reply_token = Some token,
                                       redirect = js ''/app.html''\<rparr>),
                       store(token \<mapsto> publicUser u)))))"

text \<open>\<open>POST /sessions/logout\<close> of the token variant answers \<open>{success: true}\<close>; it reads
  no header and touches no state.\<close>

definition logout :: "userStore \<Rightarrow> jsstring option \<Rightarrow> bool \<times> userStore" where
  "logout store authorization = (True, store)"

subsection \<open>The session variant\<close>

text \<open>A row of the table \<open>users\<close>, and the database: its rows and the error the driver
  reports on a statement, if any.\<close>

record db_row =
  row_id :: jsstring
  row_name :: jsstring
  row_email :: jsstring
  password_hash :: jsstring

record database =
  rows :: "db_row list"
  fault :: "js_error option"

definition getUserByEmail :: "database \<Rightarrow> jsstring \<Rightarrow> js_error + db_row option" where
  "getUserByEmail d e =
     (case fault d of
        Some err \<Rightarrow> Inl err
      | None \<Rightarrow> Inr (find (\<lambda>r. row_email r = e) (rows d)))"

text \<open>
  The session middleware: a store from session identifiers to sessions. A request's
  cookie names a session of the store or the request gets a fresh, empty session; a
  session is saved under its identifier once the handler has set its user, and
  \<open>req.session.destroy\<close> removes it from the store.
\<close>

record session =
  session_user :: "user option"

type_synonym sessions = "jsstring \<rightharpoonup> session"

definition requestSession :: "sessions \<Rightarrow> jsstring option \<Rightarrow> session" where
  "requestSession ss cookie =
     (case cookie of
        None \<Rightarrow> \<lparr>session_user = None\<rparr>
      | Some sid \<Rightarrow> (case ss sid of None \<Rightarrow> \<lparr>session_user = None\<rparr> | Some s \<Rightarrow> s))"

definition requestSessionId :: "sessions \<Rightarrow> jsstring option \<Rightarrow> jsstring \<Rightarrow> jsstring" where
  "requestSessionId ss cookie freshId =
     (case cookie of
        None \<Rightarrow> freshId
      | Some sid \<Rightarrow> (case ss sid of None \<Rightarrow> freshId | Some s \<Rightarrow> sid))"

definition requireAuthSession :: "sessions \<Rightarrow> jsstring option \<Rightarrow> http_error + user" where
  "requireAuthSession ss cookie =
     (case session_user (requestSession ss cookie) of
        Some u \<Rightarrow> Inr u
      | None \<Rightarrow> Inl (HttpError 401 (js ''Authentication required'')))"

text \<open>
  \<open>POST /sessions/login\<close> of the session variant. \<open>normalizeEmail\<close> runs before the
  \<open>try\<close>, so its TypeError leaves the handler; the lookup and \<open>hashPassword\<close> run inside
  it, so a database error and the TypeError of \<open>hashPassword\<close> both end in the \<open>catch\<close>,
  with status 500.
\<close>

definition loginSession ::
  "auth_platform \<Rightarrow> jsstring \<Rightarrow> database \<Rightarrow> sessions \<Rightarrow> jsstring option \<Rightarrow> login_body \<Rightarrow>
   (http_error + login_reply) outcome \<times> sessions" where
  "loginSession P freshId d ss cookie body =
     (case normalizeEmailOf P (orEmpty (login_email body)) of
        None \<Rightarrow> (Throws, ss)
      | Some normalizedEmail \<Rightarrow>
          (case getUserByEmail d normalizedEmail of
             Inl err \<Rightarrow> (Responds (Inl (HttpError 500 (js ''Login failed. Please try again.''))), ss)
           | Inr None \<Rightarrow> (Responds (Inl (HttpError 401 (js ''Invalid email or password.''))), ss)
           | Inr (Some r) \<Rightarrow>
               (case hashPasswordOf P (orEmpty (login_password body)) of
                  None \<Rightarrow>
                    (Responds (Inl (HttpError 500 (js ''Login failed. Please try again.''))), ss)
                | Some h \<Rightarrow>
                    if password_hash r \<noteq> h then
                      (Responds (Inl (HttpError 401 (js ''Invalid email or password.''))), ss)
                    else
                      (let u = \<lparr>uid = row_id r, name = row_name r, email = row_email r,
                                passwordHash = None\<rparr>
                       in (Responds (Inr \<lparr>reply_user = u, reply_token = None,
                                            redirect = js ''/app.html''\<rparr>),
                           ss(requestSessionId ss cookie freshId \<mapsto>
                              (requestSession ss cookie)\<lparr>session_user := Some u\<rparr>))))))"

text \<open>\<open>POST /sessions/logout\<close> of the session variant, behind \<open>requireAuth\<close>.\<close>

definition logoutSession :: "sessions \<Rightarrow> jsstring option \<Rightarrow> (http_error + bool) \<times> sessions" where
  "logoutSession ss cookie =
     (case requireAuthSession ss cookie of
        Inl e \<Rightarrow> (Inl e, ss)
      | Inr u \<Rightarrow>
          (Inr True, (case cookie of None \<Rightarrow> ss | Some sid \<Rightarrow> ss(sid := None))))"


section \<open>Properties of accounts and sessions\<close>

text \<open>A platform for examples: ASCII lower-casing, and a stand-in for the hash.\<close>

definition demoAuth :: auth_platform where
  "demoAuth = \<lparr>toLowerCase = map lowerAscii, sha256hex = (\<lambda>p. js ''sha256:'' @ p)\<rparr>"

definition demoCredentials :: credentials where
  "demoCredentials =
     \<lparr>body_name = js ''Ada'', body_email = js '' Ada@Example.org '', body_password = js ''secret1''\<rparr>"

definition demoUser :: user where
  "demoUser =
     \<lparr>uid = js ''u-1'', name = js ''Ada'', email = js ''ada@example.org'',
      passwordHash = Some (js ''sha256:secret1'')\<rparr>"

definition demoStore :: userStore where
  "demoStore = [js ''ada@example.org'' \<mapsto> demoUser, js ''c0ffee'' \<mapsto> publicUser demoUser]"

lemma demo_signup:
  "signup demoAuth (js ''u-1'') (js ''c0ffee'') Map.empty demoCredentials =
     (Inr \<lparr>reply_user = publicUser demoUser, reply_token = Some (js ''c0ffee''),
            redirect = js ''/app.html''\<rparr>, demoStore)"
proof -
  have e: "normalizeEmail demoAuth (body_email demoCredentials) = js ''ada@example.org''"
    by code_simp
  have n: "trim (body_name demoCredentials) = js ''Ada''" by code_simp
  have h: "hashPassword demoAuth (body_password demoCredentials) = js ''sha256:secret1''"
    by code_simp
  have c: "body_email demoCredentials \<noteq> []" "body_password demoCredentials \<noteq> []"
    "\<not> length (body_password demoCredentials) < 6"
    by (simp_all add: demoCredentials_def js_def)
  have a: "js ''Ada'' \<noteq> []" by (simp add: js_def)
  show ?thesis
    unfolding signup_def Let_def e n h demoStore_def
    using c a by (simp add: demoUser_def publicUser_def)
qed

lemma bearer_header:
  "js ''Bearer '' @ t \<noteq> []" "take 7 (js ''Bearer '' @ t) = js ''Bearer ''"
  "drop 7 (js ''Bearer '' @ t) = t"
  by (simp_all add: js_def)

lemma requireAuth_bearer:
  "requireAuth store (Some (js ''Bearer '' @ t)) =
     (case store t of None \<Rightarrow> Inl (HttpError 401 (js ''Invalid token'')) | Some u \<Rightarrow> Inr u)"
  unfolding requireAuth_def by (simp only: bearer_header option.case if_False simp_thms)

text \<open>
  C7 in the token variant. Logout leaves \<open>userStore\<close> as it was, so whatever a header
  authenticated before the logout it authenticates after it: the token that signup handed
  out still authenticates once its owner has logged out.
\<close>

theorem token_survives_logout:
  "requireAuth (snd (logout store authorization)) header = requireAuth store header \<and>
   (case signup demoAuth (js ''u-1'') (js ''c0ffee'') Map.empty demoCredentials of
      (reply, store1) \<Rightarrow>
        (case logout store1 (Some (js ''Bearer c0ffee'')) of
           (ok, store2) \<Rightarrow>
             ok \<and> requireAuth store2 (Some (js ''Bearer c0ffee'')) = Inr (publicUser demoUser)))"
proof -
  have b: "js ''Bearer c0ffee'' = js ''Bearer '' @ js ''c0ffee''" by (simp add: js_def)
  have d: "js ''ada@example.org'' \<noteq> js ''c0ffee''" by (simp add: js_def)
  have "requireAuth demoStore (Some (js ''Bearer '' @ js ''c0ffee'')) = Inr (publicUser demoUser)"
    unfolding requireAuth_bearer by (simp add: demoStore_def)
  then show ?thesis by (simp add: logout_def demo_signup b)
qed

text \<open>In the session variant logout removes the caller's session from the store, and the
  cookie authenticates no longer.\<close>

lemma logoutSession_destroys:
  assumes "requireAuthSession ss cookie = Inr u"
  shows "fst (logoutSession ss cookie) = Inr True \<and>
         requireAuthSession (snd (logoutSession ss cookie)) cookie =
           Inl (HttpError 401 (js ''Authentication required''))"
proof -
  from assms obtain sid where c: "cookie = Some sid"
    by (cases cookie) (auto simp: requireAuthSession_def requestSession_def)
  with assms show ?thesis
    by (simp add: logoutSession_def requireAuthSession_def requestSession_def)
qed

text \<open>For passwords that are strings a failed login looks the same whether the email is
  not registered or the hash differs: status 401 with one text, and no change of state.\<close>

lemma login_failure_strings:
  assumes "login_email body = Some (JString e)" and "login_password body = Some (JString p)"
  shows
    "(store (normalizeEmail P e) = None \<or>
      (\<exists>u. store (normalizeEmail P e) = Some u \<and> passwordHash u \<noteq> Some (hashPassword P p))
      \<longrightarrow> login P token store body =
            (Responds (Inl (HttpError 401 (js ''Invalid email or password.''))), store)) \<and>
     (getUserByEmail d (normalizeEmail P e) = Inr None \<or>
      (\<exists>r. getUserByEmail d (normalizeEmail P e) = Inr (Some r) \<and>
           password_hash r \<noteq> hashPassword P p)
      \<longrightarrow> loginSession P freshId d ss cookie body =
            (Responds (Inl (HttpError 401 (js ''Invalid email or password.''))), ss))"
  using assms
  by (auto simp: login_def loginSession_def normalizeEmailOf_def hashPasswordOf_def orEmpty_def)

text \<open>A password that is no string makes \<open>hashPassword\<close> throw, and it is called only
  for a registered email.\<close>

lemma login_password_not_string:
  assumes "login_email body = Some (JString e)" and "login_password body = Some v"
    and "\<forall>p. v \<noteq> JString p"
  shows
    "login P token store body =
       (case store (normalizeEmail P e) of
          None \<Rightarrow> (Responds (Inl (HttpError 401 (js ''Invalid email or password.''))), store)
        | Some u \<Rightarrow> (Throws, store))"
    and
    "loginSession P freshId d ss cookie body =
       (case getUserByEmail d (normalizeEmail P e) of
          Inr None \<Rightarrow> (Responds (Inl (HttpError 401 (js ''Invalid email or password.''))), ss)
        | _ \<Rightarrow> (Responds (Inl (HttpError 500 (js ''Login failed. Please try again.''))), ss))"
  using assms
  by (cases v;
      auto simp: login_def loginSession_def normalizeEmailOf_def hashPasswordOf_def orEmpty_def
        split: option.splits sum.splits)+

definition demoDatabase :: database where
  "demoDatabase =
     \<lparr>rows = [\<lparr>row_id = js ''u-1'', row_name = js ''Ada'', row_email = js ''ada@example.org'',
               password_hash = js ''sha256:secret1''\<rparr>],
      fault = None\<rparr>"

text \<open>Two login bodies with the number \<open>123\<close> as password: one for the registered email,
  one for an email that is not registered.\<close>

definition registeredEmail :: login_body where
  "registeredEmail =
     \<lparr>login_email = Some (JString (js ''ada@example.org'')), login_password = Some (JNumber 123)\<rparr>"

definition unknownEmail :: login_body where
  "unknownEmail =
     \<lparr>login_email = Some (JString (js ''bob@example.org'')), login_password = Some (JNumber 123)\<rparr>"

text \<open>
  C8 fails on the code. With the password \<open>123\<close> the login for the registered email ends
  in a TypeError (token variant, answered by the error page) or in status 500 (session
  variant), the login for the unregistered email in status 401: the response tells whether
  the email is registered.
\<close>

theorem login_reveals_registered_email:
  "demoStore (js ''ada@example.org'') = Some demoUser \<and>
   demoStore (js ''bob@example.org'') = None \<and>
   login demoAuth (js ''t1'') demoStore registeredEmail = (Throws, demoStore) \<and>
   login demoAuth (js ''t1'') demoStore unknownEmail =
     (Responds (Inl (HttpError 401 (js ''Invalid email or password.''))), demoStore) \<and>
   loginSession demoAuth (js ''s1'') demoDatabase Map.empty None registeredEmail =
     (Responds (Inl (HttpError 500 (js ''Login failed. Please try again.''))), Map.empty) \<and>
   loginSession demoAuth (js ''s1'') demoDatabase Map.empty None unknownEmail =
     (Responds (Inl (HttpError 401 (js ''Invalid email or password.''))), Map.empty)"
proof -
  have e1: "normalizeEmail demoAuth (js ''ada@example.org'') = js ''ada@example.org''"
    by code_simp
  have e2: "normalizeEmail demoAuth (js ''bob@example.org'') = js ''bob@example.org''"
    by code_simp
  have ne: "js ''bob@example.org'' \<noteq> js ''ada@example.org''" "js ''bob@example.org'' \<noteq> js ''c0ffee''"
    "js ''ada@example.org'' \<noteq> js ''c0ffee''"
    by (simp_all add: js_def)
  have s1: "demoStore (js ''bob@example.org'') = None"
    using ne by (simp add: demoStore_def)
  have s2: "demoStore (js ''ada@example.org'') = Some demoUser"
    using ne by (simp add: demoStore_def)
  have d1: "getUserByEmail demoDatabase (js ''bob@example.org'') = Inr None"
    by code_simp
  have d2: "getUserByEmail demoDatabase (js ''ada@example.org'') = Inr (Some (hd (rows demoDatabase)))"
    by code_simp
  have r: "login_email registeredEmail = Some (JString (js ''ada@example.org''))"
    "login_password registeredEmail = Some (JNumber 123)"
    and u: "login_email unknownEmail = Some (JString (js ''bob@example.org''))"
    "login_password unknownEmail = Some (JNumber 123)"
    by (simp_all add: registeredEmail_def unknownEmail_def)
  have n: "\<forall>p. JNumber 123 \<noteq> JString p" by simp
  note t = login_password_not_string(1) [where P = demoAuth and token = "js ''t1''"
      and store = demoStore]
  note l = login_password_not_string(2) [where P = demoAuth and freshId = "js ''s1''"
      and d = demoDatabase and ss = Map.empty and cookie = None]
  from t [OF r n] t [OF u n] l [OF r n] l [OF u n] s1 s2 d1 d2
  show ?thesis by (simp add: e1 e2)
qed

text \<open>
  C9. After a signup that succeeds, a request with the header \<open>Bearer\<close> followed by the
  user's normalized email passes \<open>requireAuth\<close> as that user: the emails and the tokens
  are keys of one map. The object attached to the request is the stored record with its
  \<open>passwordHash\<close>, unless the random token drawn for the session is the email itself.
\<close>

theorem email_is_bearer_token:
  "signup P uuid token store body = (Inr reply, store') \<Longrightarrow>
   (\<exists>u. requireAuth store' (Some (js ''Bearer '' @ normalizeEmail P (body_email body))) = Inr u \<and>
        uid u = uuid \<and> email u = normalizeEmail P (body_email body) \<and>
        uid (reply_user reply) = uuid \<and>
        (token \<noteq> normalizeEmail P (body_email body) \<longrightarrow>
           passwordHash u = Some (hashPassword P (body_password body)) \<and>
           store' (normalizeEmail P (body_email body)) = Some u))"
  unfolding requireAuth_bearer
  by (auto simp: signup_def Let_def publicUser_def split: if_splits)

theorem email_is_bearer_token_witness:
  "signup demoAuth (js ''u-1'') (js ''c0ffee'') Map.empty demoCredentials =
     (Inr \<lparr>reply_user = publicUser demoUser, reply_token = Some (js ''c0ffee''),
            redirect = js ''/app.html''\<rparr>, demoStore) \<and>
   js ''c0ffee'' \<noteq> normalizeEmail demoAuth (body_email demoCredentials) \<and>
   requireAuth demoStore (Some (js ''Bearer ada@example.org'')) = Inr demoUser \<and>
   passwordHash demoUser = Some (js ''sha256:secret1'')"
proof -
  have e: "normalizeEmail demoAuth (body_email demoCredentials) = js ''ada@example.org''"
    by code_simp
  have h: "hashPassword demoAuth (body_password demoCredentials) = js ''sha256:secret1''"
    by code_simp
  have ne: "js ''c0ffee'' \<noteq> js ''ada@example.org''" by (simp add: js_def)
  have b: "js ''Bearer ada@example.org'' = js ''Bearer '' @ js ''ada@example.org''"
    by (simp add: js_def)
  have s: "demoStore (js ''ada@example.org'') = Some demoUser"
    using ne by (simp add: demoStore_def)
  from email_is_bearer_token [OF demo_signup] obtain u where
    "requireAuth demoStore (Some (js ''Bearer '' @ normalizeEmail demoAuth (body_email demoCredentials))) = Inr u"
    and "js ''c0ffee'' \<noteq> normalizeEmail demoAuth (body_email demoCredentials) \<longrightarrow>
           passwordHash u = Some (hashPassword demoAuth (body_password demoCredentials)) \<and>
           demoStore (normalizeEmail demoAuth (body_email demoCredentials)) = Some u"
    by blast
  with e h ne s have "requireAuth demoStore (Some (js ''Bearer '' @ js ''ada@example.org'')) = Inr demoUser"
    by simp
  with demo_signup e ne b show ?thesis by (simp add: demoUser_def)
qed

end
